theory Spec2Isabelle
  imports Main
begin

section \<open>Python values, errors and the built-ins used by lineflow/core.py\<close>

text \<open>
  Elements of a dataset are opaque Python objects (\<open>Obj\<close>); the text datasets produce
  strings (\<open>Str\<close>) and tuples of strings (\<open>Tuple\<close>). A Python string is a list of code
  points (\<open>str\<close>), the content of a file a list of bytes (\<open>bytes\<close>). Every exception the
  code can raise is a value of \<open>error\<close>; a computation that can raise returns
  \<open>error + 'b\<close>. Map functions are pure total functions on values.
\<close>

type_synonym bytes = string

type_synonym str = "nat list"

datatype 'a val = Obj 'a | Str str | Tuple "str list"

datatype error =
  IndexError | AssertionError | ValueError | FileNotFoundError | LookupError
  | UnicodeDecodeError | RecursionError | UnpicklingError | StopIteration

type_synonym 'a func = "'a val \<Rightarrow> 'a val"

text \<open>Indexing a Python list or tuple: a negative index counts from the end.\<close>

definition list_getitem :: "'b list \<Rightarrow> int \<Rightarrow> error + 'b" where
  "list_getitem xs i =
     (let n = int (length xs); j = (if i < 0 then i + n else i)
      in if 0 \<le> j \<and> j < n then Inr (xs ! nat j) else Inl IndexError)"

text \<open>\<open>itertools.accumulate\<close>: running sums.\<close>

fun accumulate_from :: "int \<Rightarrow> int list \<Rightarrow> int list" where
  "accumulate_from acc [] = [acc]"
| "accumulate_from acc (x # xs) = acc # accumulate_from (acc + x) xs"

fun accumulate :: "int list \<Rightarrow> int list" where
  "accumulate [] = []"
| "accumulate (x # xs) = accumulate_from x xs"

text \<open>
  \<open>bisect.bisect\<close> (that is \<open>bisect_right\<close>): the loop
  \<^verbatim>\<open>while lo < hi: mid = (lo + hi) // 2; if x < a[mid]: hi = mid else: lo = mid + 1\<close>.
\<close>

function bisect_loop :: "int list \<Rightarrow> int \<Rightarrow> nat \<Rightarrow> nat \<Rightarrow> nat" where
  "bisect_loop a x lo hi =
     (if lo < hi
      then (let mid = (lo + hi) div 2
            in if x < a ! mid then bisect_loop a x lo mid else bisect_loop a x (mid + 1) hi)
      else lo)"
  by pat_completeness auto
termination
  by (relation "measure (\<lambda>(a, x, lo, hi). hi - lo)") auto

declare bisect_loop.simps [simp del]

definition bisect :: "int list \<Rightarrow> int \<Rightarrow> nat" where
  "bisect a x = bisect_loop a x 0 (length a)"

text \<open>
  \<open>slice(start, stop, step).indices(length)\<close>; \<open>None\<close> is a missing bound, a zero step
  raises ValueError.
\<close>

definition slice_indices ::
  "int option \<Rightarrow> int option \<Rightarrow> int option \<Rightarrow> int \<Rightarrow> error + (int \<times> int \<times> int)" where
  "slice_indices start stop step len =
     (let st = (case step of None \<Rightarrow> 1 | Some s \<Rightarrow> s)
      in if st = 0 then Inl ValueError
         else
           (let lower = (if st < 0 then - 1 else 0);
                upper = (if st < 0 then len - 1 else len);
                clip = (\<lambda>v. if v < 0 then max (v + len) lower else min v upper);
                a = (case start of None \<Rightarrow> (if st < 0 then upper else lower) | Some v \<Rightarrow> clip v);
                b = (case stop of None \<Rightarrow> (if st < 0 then lower else upper) | Some v \<Rightarrow> clip v)
            in Inr (a, b, st)))"

text \<open>\<open>range(start, stop, step)\<close> for a non-zero step, as the list of its members.\<close>

function py_range :: "int \<Rightarrow> int \<Rightarrow> int \<Rightarrow> int list" where
  "py_range start stop step =
     (if (0 < step \<and> start < stop) \<or> (step < 0 \<and> stop < start)
      then start # py_range (start + step) stop step
      else [])"
  by pat_completeness auto
termination
  by (relation "measure (\<lambda>(start, stop, step). nat (if 0 < step then stop - start else start - stop))")
     auto

declare py_range.simps [simp del]

section \<open>Text files\<close>

text \<open>
  The environment of a call: the bytes of the file at each path, and the library
  functions the code reaches through \<open>open\<close> and \<open>linecache\<close>, taken as parameters.
  \<^item> \<open>codec_known\<close>: \<open>codecs.lookup\<close> finds the encoding (otherwise opening a file in text
    mode raises LookupError).
  \<^item> \<open>decode\<close>: the text the incremental decoder of a text-mode file delivers from the
    bytes, and the exception that ends the decoding, if any.
  \<^item> \<open>detect_encoding\<close>: \<open>tokenize.detect_encoding\<close>, which \<open>linecache\<close> uses instead of the
    dataset's encoding (byte order mark, coding cookie, UTF-8 otherwise); \<open>None\<close> when it
    raises SyntaxError.
  The platform is POSIX: \<open>os.linesep\<close> is the line feed. Paths are written as
  \<open>str(Path(p))\<close> gives them, and permissions are not modelled.
\<close>

record env =
  files :: "string \<Rightarrow> bytes option"
  codec_known :: "string \<Rightarrow> bool"
  decode :: "string \<Rightarrow> bytes \<Rightarrow> str \<times> error option"
  detect_encoding :: "bytes \<Rightarrow> string option"

definition newline :: char where
  "newline = CHR 0x0A"

definition LF :: nat where
  "LF = 10"

definition CR :: nat where
  "CR = 13"

definition linesep :: str where
  "linesep = [LF]"

text \<open>
  \<open>readline\<close>: the next line with its terminator \<open>nl\<close>, and what is left; on bytes for a
  memory-mapped file, on code points for a text-mode file.
\<close>

definition readline :: "'c \<Rightarrow> 'c list \<Rightarrow> 'c list \<times> 'c list" where
  "readline nl s =
     (case dropWhile (\<lambda>c. c \<noteq> nl) s of
        [] \<Rightarrow> (s, [])
      | c # rest \<Rightarrow> (takeWhile (\<lambda>c. c \<noteq> nl) s @ [c], rest))"

lemma readline_shorter:
  "readline nl s = (line, rest) \<Longrightarrow> line \<noteq> [] \<Longrightarrow> length rest < length s"
proof -
  assume r: "readline nl s = (line, rest)" and ne: "line \<noteq> []"
  have "length (dropWhile (\<lambda>c. c \<noteq> nl) s) \<le> length s"
    by (rule length_dropWhile_le)
  then show ?thesis
    using r ne by (auto simp: readline_def split: list.splits)
qed

text \<open>All the lines \<open>readline\<close> returns until it returns the empty one.\<close>

function file_lines :: "'c \<Rightarrow> 'c list \<Rightarrow> 'c list list" where
  "file_lines nl s =
     (case readline nl s of (line, rest) \<Rightarrow> if line = [] then [] else line # file_lines nl rest)"
  by pat_completeness auto
termination
  by (relation "measure (\<lambda>(nl, s). length s)") (auto dest: readline_shorter [OF sym])

declare file_lines.simps [simp del]

text \<open>
  Text mode reads with universal newlines: a carriage return, alone or followed by a line
  feed, ends a line and is delivered as one line feed.
\<close>

fun universal_newlines :: "str \<Rightarrow> str" where
  "universal_newlines [] = []"
| "universal_newlines [c] = [if c = CR then LF else c]"
| "universal_newlines (c # d # rest) =
     (if c = CR \<and> d = LF then LF # universal_newlines rest
      else if c = CR then LF # universal_newlines (d # rest)
      else c # universal_newlines (d # rest))"

definition text_lines :: "str \<Rightarrow> str list" where
  "text_lines t = file_lines LF (universal_newlines t)"

text \<open>
  Opening a file in text mode with an encoding, and iterating it (\<^verbatim>\<open>for line in f\<close>):
  a missing file and an unknown encoding raise at \<open>open\<close>; the iteration yields the lines
  of the decoded text, and when the decoder raises, only the lines already complete (a
  carriage return at the very end of the text delivered is held back, since a line feed
  may follow it).
\<close>

type_synonym 'b iteration = "'b list \<times> error option"

definition open_text :: "env \<Rightarrow> string \<Rightarrow> string \<Rightarrow> error + str iteration" where
  "open_text env p encoding =
     (case files env p of
        None \<Rightarrow> Inl FileNotFoundError
      | Some b \<Rightarrow>
          if \<not> codec_known env encoding then Inl LookupError
          else
            (case decode env encoding b of
               (t, None) \<Rightarrow> Inr (text_lines t, None)
             | (t, Some e) \<Rightarrow>
                 Inr (filter (\<lambda>line. line \<noteq> [] \<and> last line = LF)
                        (text_lines (if t \<noteq> [] \<and> last t = CR then butlast t else t)),
                      Some e)))"

text \<open>\<open>str.rstrip(chars)\<close>: drop every trailing character that occurs in \<open>chars\<close>.\<close>

definition rstrip :: "'c list \<Rightarrow> 'c list \<Rightarrow> 'c list" where
  "rstrip chars s = rev (dropWhile (\<lambda>c. c \<in> set chars) (rev s))"

text \<open>
  \<open>linecache\<close> keeps the lines of every file it has read in a module-level cache, which
  \<open>getlines\<close> consults first and never refreshes. \<open>updatecache\<close> reads a file on a miss: it
  refuses an empty name and a name in angle brackets, reads with the detected encoding
  and universal newlines, completes the last line with a line feed, and stores the lines;
  when the file is missing or cannot be decoded it stores nothing and the lines are
  \<open>[]\<close>. (For a missing relative name \<open>updatecache\<close> also searches \<open>sys.path\<close>; that search
  is taken to find nothing.) \<open>getline\<close> returns the empty string for a line number out of
  range. Neither raises.
\<close>

type_synonym linecache = "string \<Rightarrow> str list option"

definition complete_last :: "str list \<Rightarrow> str list" where
  "complete_last lines =
     (if lines \<noteq> [] \<and> (last lines = [] \<or> last (last lines) \<noteq> LF)
      then butlast lines @ [last lines @ [LF]]
      else lines)"

definition updatecache :: "env \<Rightarrow> string \<Rightarrow> str list option" where
  "updatecache env filename =
     (if filename = [] \<or> (hd filename = CHR ''<'' \<and> last filename = CHR ''>'') then None
      else
        (case files env filename of
           None \<Rightarrow> None
         | Some b \<Rightarrow>
             (case detect_encoding env b of
                None \<Rightarrow> None
              | Some encoding \<Rightarrow>
                  (case decode env encoding b of
                     (t, None) \<Rightarrow> Some (complete_last (text_lines t))
                   | (t, Some e) \<Rightarrow> None))))"

definition linecache_getlines :: "env \<Rightarrow> linecache \<Rightarrow> string \<Rightarrow> str list \<times> linecache" where
  "linecache_getlines env cache filename =
     (case cache filename of
        Some lines \<Rightarrow> (lines, cache)
      | None \<Rightarrow>
          (case updatecache env filename of
             None \<Rightarrow> ([], cache)
           | Some lines \<Rightarrow> (lines, cache(filename \<mapsto> lines))))"

definition linecache_getline :: "env \<Rightarrow> linecache \<Rightarrow> string \<Rightarrow> int \<Rightarrow> str \<times> linecache" where
  "linecache_getline env cache filename lineno =
     (case linecache_getlines env cache filename of
        (lines, cache') \<Rightarrow>
          (if 1 \<le> lineno \<and> lineno \<le> int (length lines) then lines ! nat (lineno - 1) else [],
           cache'))"

text \<open>
  \<open>SingleTextDataset._count_lines\<close>: the file is opened in text mode with the dataset's
  encoding and mapped into memory (mapping an empty file raises ValueError), then
  \<^verbatim>\<open>while mm.readline(): count += 1\<close> on the bytes.
\<close>

function count_loop :: "bytes \<Rightarrow> int \<Rightarrow> int" where
  "count_loop mm count =
     (case readline newline mm of
        (line, rest) \<Rightarrow> if line = [] then count else count_loop rest (count + 1))"
  by pat_completeness auto
termination
  by (relation "measure (\<lambda>(mm, count). length mm)") (auto dest: readline_shorter [OF sym])

declare count_loop.simps [simp del]

definition count_lines :: "env \<Rightarrow> string \<Rightarrow> string \<Rightarrow> error + int" where
  "count_lines env p encoding =
     (case files env p of
        None \<Rightarrow> Inl FileNotFoundError
      | Some b \<Rightarrow>
          if \<not> codec_known env encoding then Inl LookupError
          else if b = [] then Inl ValueError
          else Inr (count_loop b 0))"

section \<open>The datasets\<close>

text \<open>
  One constructor per class, with the attributes the class assigns (\<open>f_x\<close> is the attribute
  \<open>_x\<close>). The attribute \<open>_dataset\<close> of a Dataset, MapDataset or CacheDataset holds either a
  raw Python sequence (a list) or a dataset object; the argument of a constructor is of the
  same two kinds. \<open>_length\<close> is the cache of \<open>__len__\<close>, \<open>None\<close> until it is filled.
\<close>

datatype 'a dataset =
    Dataset (f_dataset: "'a source") (f_length: "int option")
  | ConcatDataset (f_datasets: "'a dataset list") (f_lengths: "int list")
      (f_length: "int option") (f_offsets: "int list")
  | MapDataset (f_dataset: "'a source") (f_map_func_list: "'a func list")
      (f_length: "int option")
  | CacheDataset (f_dataset: "'a source") (f_map_func_list: "'a func list")
      (f_cache: "'a val list") (f_length: "int option")
  | SingleTextDataset (f_filepath: string) (f_encoding: string) (f_length: "int option")
  | TextDataset (f_filepaths: "string list") (f_encoding: string) (f_length: "int option")
and 'a source = Raw "'a val list" | Node "'a dataset"

text \<open>\<open>isinstance(x, Dataset)\<close> and \<open>isinstance(x, MapDataset)\<close>.\<close>

fun isinstance_Dataset :: "'a source \<Rightarrow> bool" where
  "isinstance_Dataset (Raw xs) = False"
| "isinstance_Dataset (Node d) = True"

fun isinstance_MapDataset :: "'a source \<Rightarrow> bool" where
  "isinstance_MapDataset (Node (MapDataset s fns l)) = True"
| "isinstance_MapDataset (Node (CacheDataset s fns c l)) = True"
| "isinstance_MapDataset x = False"

text \<open>
  Reading \<open>d._dataset\<close>: the stored attribute, or the object itself where the class
  defines \<open>_dataset\<close> as a property returning \<open>self\<close>.
\<close>

fun attr_dataset :: "'a dataset \<Rightarrow> 'a source" where
  "attr_dataset (Dataset s l) = s"
| "attr_dataset (MapDataset s fns l) = s"
| "attr_dataset (CacheDataset s fns c l) = s"
| "attr_dataset (ConcatDataset ds ls l os) = Node (ConcatDataset ds ls l os)"
| "attr_dataset (SingleTextDataset p enc l) = Node (SingleTextDataset p enc l)"
| "attr_dataset (TextDataset ps enc l) = Node (TextDataset ps enc l)"

text \<open>The assignment \<open>self._length = v\<close>.\<close>

fun set_length :: "int option \<Rightarrow> 'a dataset \<Rightarrow> 'a dataset" where
  "set_length v (Dataset s l) = Dataset s v"
| "set_length v (ConcatDataset ds ls l os) = ConcatDataset ds ls v os"
| "set_length v (MapDataset s fns l) = MapDataset s fns v"
| "set_length v (CacheDataset s fns c l) = CacheDataset s fns c v"
| "set_length v (SingleTextDataset p enc l) = SingleTextDataset p enc v"
| "set_length v (TextDataset ps enc l) = TextDataset ps enc v"

subsection \<open>Constructors\<close>

text \<open>
  \<open>Dataset.__init__(self, dataset)\<close>, run on the object under construction: it stores the
  wrapped dataset's own \<open>_dataset\<close> when the argument is a Dataset, the argument itself
  otherwise, and then sets \<open>_length\<close> to \<open>None\<close>. An attribute not yet assigned is
  written \<open>Raw []\<close>.
\<close>

fun init_dataset :: "'a source \<Rightarrow> 'a source" where
  "init_dataset (Node d) = attr_dataset d"
| "init_dataset (Raw xs) = Raw xs"

fun set_dataset :: "'a source \<Rightarrow> 'a dataset \<Rightarrow> 'a dataset" where
  "set_dataset v (Dataset s l) = Dataset v l"
| "set_dataset v (MapDataset s fns l) = MapDataset v fns l"
| "set_dataset v (CacheDataset s fns c l) = CacheDataset v fns c l"
| "set_dataset v d = d"

definition Dataset_init_self :: "'a dataset \<Rightarrow> 'a source \<Rightarrow> 'a dataset" where
  "Dataset_init_self self dataset = set_length None (set_dataset (init_dataset dataset) self)"

definition Dataset_init :: "'a source \<Rightarrow> 'a dataset" where
  "Dataset_init dataset = Dataset_init_self (Dataset (Raw []) None) dataset"

text \<open>
  \<open>MapDataset.__init__\<close>: the function list of a MapDataset argument is copied and the new
  function appended to the copy; any other argument starts a list of one function.
  (\<open>assert callable(map_func)\<close> holds of every function.)
\<close>

definition MapDataset_init :: "'a source \<Rightarrow> 'a func \<Rightarrow> 'a dataset" where
  "MapDataset_init dataset map_func =
     (let map_func_list =
            (case dataset of
               Node d \<Rightarrow>
                 if isinstance_MapDataset dataset then f_map_func_list d @ [map_func]
                 else [map_func]
             | Raw xs \<Rightarrow> [map_func])
      in Dataset_init_self (MapDataset (Raw []) map_func_list None) dataset)"

text \<open>
  \<open>CacheDataset.__init__\<close> assigns \<open>_map_func_list\<close>, \<open>_cache\<close> and
  \<open>_length = len(self._cache)\<close>, and then calls \<open>Dataset.__init__\<close>.
\<close>

definition CacheDataset_init :: "'a source \<Rightarrow> 'a val list \<Rightarrow> 'a dataset" where
  "CacheDataset_init dataset cache =
     (let map_func_list =
            (case dataset of
               Node d \<Rightarrow> if isinstance_MapDataset dataset then f_map_func_list d else []
             | Raw xs \<Rightarrow> [])
      in Dataset_init_self
           (CacheDataset (Raw []) map_func_list cache (Some (int (length cache)))) dataset)"

text \<open>
  \<open>SingleTextDataset.__init__\<close> and \<open>TextDataset.__new__\<close>/\<open>__init__\<close>: a single path string
  gives a SingleTextDataset, a list of paths a TextDataset; every path must be a file.
\<close>

definition is_file :: "env \<Rightarrow> string \<Rightarrow> bool" where
  "is_file env p = (files env p \<noteq> None)"

definition SingleTextDataset_init :: "env \<Rightarrow> string \<Rightarrow> string \<Rightarrow> error + 'a dataset" where
  "SingleTextDataset_init env filepath encoding =
     (if is_file env filepath then Inr (SingleTextDataset filepath encoding None)
      else Inl AssertionError)"

datatype paths = OnePath string | ManyPaths "string list"

fun TextDataset_init :: "env \<Rightarrow> paths \<Rightarrow> string \<Rightarrow> error + 'a dataset" where
  "TextDataset_init env (OnePath filepaths) encoding =
     SingleTextDataset_init env filepaths encoding"
| "TextDataset_init env (ManyPaths filepaths) encoding =
     (if list_all (is_file env) filepaths then Inr (TextDataset filepaths encoding None)
      else Inl AssertionError)"

subsection \<open>Indexed access: \<open>get_example\<close>\<close>

text \<open>The loop \<^verbatim>\<open>for map_func in self._map_func_list: x = map_func(x)\<close>.\<close>

fun apply_map_funcs :: "'a func list \<Rightarrow> 'a val \<Rightarrow> 'a val" where
  "apply_map_funcs [] x = x"
| "apply_map_funcs (map_func # rest) x = apply_map_funcs rest (map_func x)"

text \<open>\<open>linecache.getline(str(p), lineno)\<close> for each path in turn.\<close>

fun getline_all :: "env \<Rightarrow> linecache \<Rightarrow> string list \<Rightarrow> int \<Rightarrow> str list \<times> linecache" where
  "getline_all env cache [] lineno = ([], cache)"
| "getline_all env cache (p # ps) lineno =
     (case linecache_getline env cache p lineno of
        (line, cache') \<Rightarrow>
          (case getline_all env cache' ps lineno of
             (lines, cache'') \<Rightarrow> (line # lines, cache'')))"

lemma size_nth_dataset: "j < length ds \<Longrightarrow> size (ds ! j) < Suc (size_list size ds)"
  by (metis less_Suc_eq_le nth_mem size_list_estimation' order_refl)

text \<open>
  An access returns its result together with the line cache as the call leaves it; the
  line cache is the only state an access changes. \<open>source_getitem\<close> is \<open>self._dataset[i]\<close>
  for an integer \<open>i\<close>: list indexing on a raw sequence, and on a dataset the method
  \<open>__getitem__\<close>, which for an integer is \<open>get_example\<close>.
\<close>

function get_example ::
    "env \<Rightarrow> linecache \<Rightarrow> 'a dataset \<Rightarrow> int \<Rightarrow> (error + 'a val) \<times> linecache"
  and source_getitem ::
    "env \<Rightarrow> linecache \<Rightarrow> 'a source \<Rightarrow> int \<Rightarrow> (error + 'a val) \<times> linecache" where
  "get_example env cache (Dataset s l) i = source_getitem env cache s i"
| "get_example env cache (ConcatDataset ds ls l os) i =
     (let j = bisect ls i
      in if j < length ds
         then (case list_getitem os (int j) of
                 Inl e \<Rightarrow> (Inl e, cache)
               | Inr off \<Rightarrow> get_example env cache (ds ! j) (i - off))
         else (Inl IndexError, cache))"
| "get_example env cache (MapDataset s fns l) i =
     (case source_getitem env cache s i of
        (Inl e, cache') \<Rightarrow> (Inl e, cache')
      | (Inr x, cache') \<Rightarrow> (Inr (apply_map_funcs fns x), cache'))"
| "get_example env cache (CacheDataset s fns c l) i = (list_getitem c i, cache)"
| "get_example env cache (SingleTextDataset p enc l) i =
     (case linecache_getline env cache p (i + 1) of
        (line, cache') \<Rightarrow> (Inr (Str (rstrip linesep line)), cache'))"
| "get_example env cache (TextDataset ps enc l) i =
     (case getline_all env cache ps (i + 1) of
        (lines, cache') \<Rightarrow> (Inr (Tuple (map (rstrip linesep) lines)), cache'))"
| "source_getitem env cache (Raw xs) i = (list_getitem xs i, cache)"
| "source_getitem env cache (Node d) i = get_example env cache d i"
  by pat_completeness auto
termination
  by (relation "measure (\<lambda>x. case x of Inl (env, cache, d, i) \<Rightarrow> size d
                                       | Inr (env, cache, s, i) \<Rightarrow> size s)")
     (auto simp: size_nth_dataset)

subsection \<open>Iteration: \<open>__iter__\<close>\<close>

text \<open>
  An iteration is the list of the elements it yields and how it ends: \<open>None\<close> when it is
  exhausted, \<open>Some e\<close> when it raises \<open>e\<close> after the elements listed.
  \<open>chain\<close> is \<^verbatim>\<open>for d in self._datasets: yield from d\<close>.
\<close>

fun chain :: "'b iteration list \<Rightarrow> 'b iteration" where
  "chain [] = ([], None)"
| "chain ((xs, Some e) # rest) = (xs, Some e)"
| "chain ((xs, None) # rest) = (case chain rest of (ys, r) \<Rightarrow> (xs @ ys, r))"

text \<open>
  \<open>zip(*fps)\<close>: for every row it asks each iterable in turn for its next element; the
  first one that is exhausted ends the zip, the first one that raises ends it with that
  exception. With no iterable there is no row.
\<close>

fun next_all :: "'b iteration list \<Rightarrow> error option + ('b list \<times> 'b iteration list)" where
  "next_all [] = Inr ([], [])"
| "next_all (([], r) # rest) = Inl r"
| "next_all ((x # xs, r) # rest) =
     (case next_all rest of
        Inl r' \<Rightarrow> Inl r'
      | Inr (row, rest') \<Rightarrow> Inr (x # row, (xs, r) # rest'))"

lemma next_all_shorter:
  "next_all its = Inr (row, its') \<Longrightarrow>
     its \<noteq> [] \<Longrightarrow> sum_list (map (\<lambda>it. length (fst it)) its')
       < sum_list (map (\<lambda>it. length (fst it)) its)"
proof (induction its arbitrary: row its' rule: next_all.induct)
  case 1
  then show ?case by simp
next
  case (2 r rest)
  then show ?case by simp
next
  case (3 x xs r rest)
  from "3.prems"(1) obtain row1 rest1 where n: "next_all rest = Inr (row1, rest1)"
    and e: "its' = (xs, r) # rest1"
    by (auto split: sum.splits)
  show ?case
  proof (cases "rest = []")
    case True
    with n e show ?thesis by simp
  next
    case False
    from "3.IH" [OF n False] e show ?thesis by simp
  qed
qed

function zip_star :: "'b iteration list \<Rightarrow> 'b list iteration" where
  "zip_star its =
     (if its = [] then ([], None)
      else
        (case next_all its of
           Inl r \<Rightarrow> ([], r)
         | Inr (row, its') \<Rightarrow> (case zip_star its' of (rows, r) \<Rightarrow> (row # rows, r))))"
  by pat_completeness auto
termination
  by (relation "measure (\<lambda>its. sum_list (map (\<lambda>it. length (fst it)) its))")
     (auto intro: next_all_shorter)

declare zip_star.simps [simp del]

text \<open>Opening every file of a list in turn: the first that cannot be opened raises.\<close>

fun open_all :: "env \<Rightarrow> string list \<Rightarrow> string \<Rightarrow> error + str iteration list" where
  "open_all env [] encoding = Inr []"
| "open_all env (p # ps) encoding =
     (case open_text env p encoding of
        Inl e \<Rightarrow> Inl e
      | Inr f \<Rightarrow>
          (case open_all env ps encoding of Inl e \<Rightarrow> Inl e | Inr fps \<Rightarrow> Inr (f # fps)))"

fun iter :: "env \<Rightarrow> 'a dataset \<Rightarrow> 'a val iteration"
  and source_iter :: "env \<Rightarrow> 'a source \<Rightarrow> 'a val iteration" where
  "iter env (Dataset s l) = source_iter env s"
| "iter env (ConcatDataset ds ls l os) = chain (map (iter env) ds)"
| "iter env (MapDataset s fns l) =
     (case source_iter env s of (xs, r) \<Rightarrow> (map (apply_map_funcs fns) xs, r))"
| "iter env (CacheDataset s fns c l) = (c, None)"
| "iter env (SingleTextDataset p enc l) =
     (case open_text env p enc of
        Inl e \<Rightarrow> ([], Some e)
      | Inr (lines, r) \<Rightarrow> (map (\<lambda>line. Str (rstrip linesep line)) lines, r))"
| "iter env (TextDataset ps enc l) =
     (case open_all env ps enc of
        Inl e \<Rightarrow> ([], Some e)
      | Inr fps \<Rightarrow>
          (case zip_star fps of
             (rows, r) \<Rightarrow> (map (\<lambda>lines. Tuple (map (rstrip linesep) lines)) rows, r)))"
| "source_iter env (Raw xs) = (xs, None)"
| "source_iter env (Node d) = iter env d"

subsection \<open>Length: \<open>__len__\<close>, \<open>get_length\<close> and \<open>len\<close>\<close>

text \<open>
  \<open>Dataset_len\<close> is the method \<open>__len__\<close>: it fills the cache \<open>_length\<close>, so it returns the
  object as it is afterwards together with the length. \<open>len\<close> is the built-in, which calls
  \<open>__len__\<close> and raises ValueError on a negative result. \<open>source_len\<close> is
  \<open>len(self._dataset)\<close>. A ConcatDataset inherits \<open>Dataset.get_length\<close>, which asks
  \<open>len(self._dataset)\<close>, the object itself: with an empty cache that recursion never
  ends in Python (RecursionError).
\<close>

fun Dataset_len :: "env \<Rightarrow> 'a dataset \<Rightarrow> error + (int \<times> 'a dataset)"
  and len :: "env \<Rightarrow> 'a dataset \<Rightarrow> error + (int \<times> 'a dataset)"
  and get_length :: "env \<Rightarrow> 'a dataset \<Rightarrow> error + (int \<times> 'a dataset)"
  and source_len :: "env \<Rightarrow> 'a source \<Rightarrow> error + (int \<times> 'a source)" where
  "Dataset_len env self =
     (case f_length self of
        Some n \<Rightarrow> Inr (n, self)
      | None \<Rightarrow>
          (case get_length env self of
             Inl e \<Rightarrow> Inl e
           | Inr (n, self') \<Rightarrow> Inr (n, set_length (Some n) self')))"
| "len env d =
     (case Dataset_len env d of
        Inl e \<Rightarrow> Inl e
      | Inr (n, d') \<Rightarrow> if n < 0 then Inl ValueError else Inr (n, d'))"
| "get_length env (Dataset s l) =
     (case source_len env s of Inl e \<Rightarrow> Inl e | Inr (n, s') \<Rightarrow> Inr (n, Dataset s' l))"
| "get_length env (MapDataset s fns l) =
     (case source_len env s of Inl e \<Rightarrow> Inl e | Inr (n, s') \<Rightarrow> Inr (n, MapDataset s' fns l))"
| "get_length env (CacheDataset s fns c l) =
     (case source_len env s of
        Inl e \<Rightarrow> Inl e
      | Inr (n, s') \<Rightarrow> Inr (n, CacheDataset s' fns c l))"
| "get_length env (ConcatDataset ds ls l os) = Inl RecursionError"
| "get_length env (SingleTextDataset p enc l) =
     (case count_lines env p enc of
        Inl e \<Rightarrow> Inl e
      | Inr n \<Rightarrow> Inr (n, SingleTextDataset p enc l))"
| "get_length env (TextDataset ps enc l) =
     (case list_getitem ps 0 of
        Inl e \<Rightarrow> Inl e
      | Inr p \<Rightarrow>
          (case count_lines env p enc of
             Inl e \<Rightarrow> Inl e
           | Inr n \<Rightarrow> Inr (n, TextDataset ps enc l)))"
| "source_len env (Raw xs) = Inr (int (length xs), Raw xs)"
| "source_len env (Node d) =
     (case len env d of Inl e \<Rightarrow> Inl e | Inr (n, d') \<Rightarrow> Inr (n, Node d'))"

declare Dataset_len.simps [simp del] len.simps [simp del]

subsection \<open>Draining: \<open>all\<close>, \<open>take\<close> and \<open>first\<close>\<close>

text \<open>
  \<open>list(self)\<close> asks \<open>len(self)\<close> for a size hint before it iterates: the call fills the
  length cache, and an exception it raises ends \<open>list\<close> before the first element is
  asked for. \<open>all_ds\<close> returns the list together with the object as the call leaves it.
  \<open>list(islice(self, n))\<close> and \<open>next(iter(self))\<close> ask no length.
\<close>

definition all_ds :: "env \<Rightarrow> 'a dataset \<Rightarrow> error + ('a val list \<times> 'a dataset)" where
  "all_ds env self =
     (case len env self of
        Inl e \<Rightarrow> Inl e
      | Inr (n, self') \<Rightarrow>
          (case iter env self' of (xs, None) \<Rightarrow> Inr (xs, self') | (xs, Some e) \<Rightarrow> Inl e))"

definition take_ds :: "env \<Rightarrow> 'a dataset \<Rightarrow> nat \<Rightarrow> error + 'a val list" where
  "take_ds env self n =
     (case iter env self of
        (xs, r) \<Rightarrow>
          if n \<le> length xs then Inr (take n xs)
          else (case r of None \<Rightarrow> Inr xs | Some e \<Rightarrow> Inl e))"

definition first_ds :: "env \<Rightarrow> 'a dataset \<Rightarrow> error + 'a val" where
  "first_ds env self =
     (case iter env self of
        (x # xs, r) \<Rightarrow> Inr x
      | ([], None) \<Rightarrow> Inl StopIteration
      | ([], Some e) \<Rightarrow> Inl e)"

subsection \<open>Concatenation\<close>

text \<open>
  \<open>ConcatDataset.__init__(*datasets)\<close>: every argument must be a Dataset; \<open>len\<close> of each
  child is taken in order (which fills the child's cache), the running sums are
  \<open>_lengths\<close>, their last member \<open>_length\<close> (IndexError when there is no child), and
  \<open>_offsets = [0] + _lengths[:-1]\<close>.
\<close>

fun len_all :: "env \<Rightarrow> 'a dataset list \<Rightarrow> error + (int list \<times> 'a dataset list)" where
  "len_all env [] = Inr ([], [])"
| "len_all env (d # ds) =
     (case len env d of
        Inl e \<Rightarrow> Inl e
      | Inr (n, d') \<Rightarrow>
          (case len_all env ds of
             Inl e \<Rightarrow> Inl e
           | Inr (ns, ds') \<Rightarrow> Inr (n # ns, d' # ds')))"

fun the_datasets :: "'a source list \<Rightarrow> 'a dataset list" where
  "the_datasets [] = []"
| "the_datasets (Node d # rest) = d # the_datasets rest"
| "the_datasets (Raw xs # rest) = the_datasets rest"

definition ConcatDataset_init :: "env \<Rightarrow> 'a source list \<Rightarrow> error + 'a dataset" where
  "ConcatDataset_init env datasets =
     (if \<not> list_all isinstance_Dataset datasets then Inl AssertionError
      else
        (case len_all env (the_datasets datasets) of
           Inl e \<Rightarrow> Inl e
         | Inr (ns, ds) \<Rightarrow>
             (let lengths = accumulate ns
              in case list_getitem lengths (- 1) of
                   Inl e \<Rightarrow> Inl e
                 | Inr n \<Rightarrow> Inr (ConcatDataset ds lengths (Some n) (0 # butlast lengths)))))"

text \<open>\<open>self + other\<close>, \<open>self.concat(*datasets)\<close> and \<open>self.map(map_func)\<close>.\<close>

definition add_ds :: "env \<Rightarrow> 'a dataset \<Rightarrow> 'a source \<Rightarrow> error + 'a dataset" where
  "add_ds env self other = ConcatDataset_init env [Node self, other]"

definition concat_ds :: "env \<Rightarrow> 'a dataset \<Rightarrow> 'a source list \<Rightarrow> error + 'a dataset" where
  "concat_ds env self datasets = ConcatDataset_init env (Node self # datasets)"

definition map_ds :: "'a dataset \<Rightarrow> 'a func \<Rightarrow> 'a dataset" where
  "map_ds self map_func = MapDataset_init (Node self) map_func"

subsection \<open>\<open>__getitem__\<close>\<close>

text \<open>
  The index is an integer or a slice. A slice asks \<open>len(self)\<close> first (filling the cache)
  and then collects \<open>get_example\<close> over the range of the normalised indices; the first
  access that raises ends the comprehension.
\<close>

datatype index = Index int | Slice "int option" "int option" "int option"

datatype 'a item = Item "'a val" | Items "'a val list"

fun get_examples ::
  "env \<Rightarrow> linecache \<Rightarrow> 'a dataset \<Rightarrow> int list \<Rightarrow> (error + 'a val list) \<times> linecache" where
  "get_examples env cache self [] = (Inr [], cache)"
| "get_examples env cache self (i # rest) =
     (case get_example env cache self i of
        (Inl e, cache') \<Rightarrow> (Inl e, cache')
      | (Inr x, cache') \<Rightarrow>
          (case get_examples env cache' self rest of
             (Inl e, cache'') \<Rightarrow> (Inl e, cache'')
           | (Inr xs, cache'') \<Rightarrow> (Inr (x # xs), cache'')))"

fun Dataset_getitem ::
  "env \<Rightarrow> linecache \<Rightarrow> 'a dataset \<Rightarrow> index
     \<Rightarrow> (error + ('a item \<times> 'a dataset)) \<times> linecache" where
  "Dataset_getitem env cache self (Slice start stop step) =
     (case len env self of
        Inl e \<Rightarrow> (Inl e, cache)
      | Inr (n, self') \<Rightarrow>
          (case slice_indices start stop step n of
             Inl e \<Rightarrow> (Inl e, cache)
           | Inr (start', stop', step') \<Rightarrow>
               (case get_examples env cache self' (py_range start' stop' step') of
                  (Inl e, cache') \<Rightarrow> (Inl e, cache')
                | (Inr xs, cache') \<Rightarrow> (Inr (Items xs, self'), cache'))))"
| "Dataset_getitem env cache self (Index i) =
     (case get_example env cache self i of
        (Inl e, cache') \<Rightarrow> (Inl e, cache')
      | (Inr x, cache') \<Rightarrow> (Inr (Item x, self), cache'))"

subsection \<open>Snapshot persistence: \<open>save\<close> and \<open>load\<close>\<close>

text \<open>
  \<open>pickle.dump\<close> and \<open>pickle.load\<close> belong to the Python library: they are parameters,
  \<open>dump\<close> from a list of elements to the bytes written and \<open>loads\<close> from the bytes read to
  the list they encode, or an error. \<open>save\<close> drains \<open>list(self)\<close> first; only when that
  succeeds is the file written. It returns the environment with the file written, the
  object as the call leaves it, and the CacheDataset built from that object.
\<close>

definition save ::
  "('a val list \<Rightarrow> bytes) \<Rightarrow> env \<Rightarrow> 'a dataset \<Rightarrow> string
     \<Rightarrow> error + (env \<times> 'a dataset \<times> 'a dataset)" where
  "save dump env self filename =
     (case all_ds env self of
        Inl e \<Rightarrow> Inl e
      | Inr (cache, self') \<Rightarrow>
          Inr (env\<lparr>files := (files env)(filename \<mapsto> dump cache)\<rparr>, self',
               CacheDataset_init (Node self') cache))"

definition load ::
  "(bytes \<Rightarrow> error + 'a val list) \<Rightarrow> env \<Rightarrow> string \<Rightarrow> error + 'a dataset" where
  "load loads env filename =
     (case files env filename of
        None \<Rightarrow> Inl FileNotFoundError
      | Some b \<Rightarrow>
          (case loads b of
             Inl e \<Rightarrow> Inl e
           | Inr dataset \<Rightarrow> Inr (Dataset_init (Raw dataset))))"

section \<open>Invariants of the nodes\<close>

text \<open>
  \<open>erase\<close> empties the length caches that no accessor reads: indexed access and iteration
  do not depend on them. (A ConcatDataset keeps its own \<open>_length\<close>, which is never
  computed after construction.)
\<close>

fun erase :: "'a dataset \<Rightarrow> 'a dataset"
  and erase_source :: "'a source \<Rightarrow> 'a source" where
  "erase (Dataset s l) = Dataset (erase_source s) None"
| "erase (ConcatDataset ds ls l os) = ConcatDataset (map erase ds) ls l os"
| "erase (MapDataset s fns l) = MapDataset (erase_source s) fns None"
| "erase (CacheDataset s fns c l) = CacheDataset (erase_source s) fns c None"
| "erase (SingleTextDataset p enc l) = SingleTextDataset p enc None"
| "erase (TextDataset ps enc l) = TextDataset ps enc None"
| "erase_source (Raw xs) = Raw xs"
| "erase_source (Node d) = Node (erase d)"

text \<open>The number of elements an iteration yields.\<close>

definition count :: "env \<Rightarrow> 'a dataset \<Rightarrow> int" where
  "count env d = int (length (fst (iter env d)))"

definition source_count :: "env \<Rightarrow> 'a source \<Rightarrow> int" where
  "source_count env s = int (length (fst (source_iter env s)))"

text \<open>A length cache is empty or holds the number of elements.\<close>

fun cache_ok :: "int option \<Rightarrow> int \<Rightarrow> bool" where
  "cache_ok None n = True"
| "cache_ok (Some m) n = (m = n)"

text \<open>
  The three readers of a text file agree on it: the file exists and text mode decodes it
  with the dataset's encoding to the end; \<open>linecache\<close> accepts the name and, with the
  encoding it detects, reads the same lines; and the file has as many lines ended by a line
  feed byte (the last one possibly unended) as text mode delivers. So it is for a file of
  ASCII text without carriage returns, read as UTF-8.
\<close>

definition decoded :: "env \<Rightarrow> string \<Rightarrow> string \<Rightarrow> str list" where
  "decoded env p encoding =
     (case files env p of None \<Rightarrow> [] | Some b \<Rightarrow> text_lines (fst (decode env encoding b)))"

definition readers_agree :: "env \<Rightarrow> string \<Rightarrow> string \<Rightarrow> bool" where
  "readers_agree env p encoding =
     (case files env p of
        None \<Rightarrow> False
      | Some b \<Rightarrow>
          codec_known env encoding \<and> snd (decode env encoding b) = None
          \<and> updatecache env p = Some (complete_last (decoded env p encoding))
          \<and> length (file_lines newline b) = length (decoded env p encoding))"

text \<open>
  The line cache is coherent with the files: the lines it holds for a name are those a
  fresh read of the file gives. An empty cache is coherent.
\<close>

definition coherent :: "env \<Rightarrow> linecache \<Rightarrow> bool" where
  "coherent env cache = (\<forall>p lines. cache p = Some lines \<longrightarrow> updatecache env p = Some lines)"

text \<open>The lines a fresh read of a file gives \<open>linecache\<close>.\<close>

definition fresh_lines :: "env \<Rightarrow> string \<Rightarrow> str list" where
  "fresh_lines env p = (case updatecache env p of None \<Rightarrow> [] | Some lines \<Rightarrow> lines)"

definition fresh_line :: "env \<Rightarrow> string \<Rightarrow> int \<Rightarrow> str" where
  "fresh_line env p lineno =
     (if 1 \<le> lineno \<and> lineno \<le> int (length (fresh_lines env p))
      then fresh_lines env p ! nat (lineno - 1) else [])"

text \<open>The files of a multi-file text dataset are aligned: they have the same number of lines.\<close>

definition line_count :: "env \<Rightarrow> string \<Rightarrow> string \<Rightarrow> nat" where
  "line_count env p encoding = length (decoded env p encoding)"

definition aligned :: "env \<Rightarrow> string list \<Rightarrow> string \<Rightarrow> bool" where
  "aligned env ps encoding =
     list_all (\<lambda>p. line_count env p encoding = line_count env (hd ps) encoding) ps"

text \<open>
  A well-formed node is one the constructors build over text files on which the readers
  agree and which, for a multi-file text dataset, are aligned: the tables of a
  ConcatDataset are the running sums of its children's sizes, a filled length cache holds
  the number of elements, and the snapshot of a CacheDataset has as many elements as its
  upstream.
\<close>

fun well_formed :: "env \<Rightarrow> 'a dataset \<Rightarrow> bool"
  and well_formed_source :: "env \<Rightarrow> 'a source \<Rightarrow> bool" where
  "well_formed env (Dataset s l) =
     (well_formed_source env s \<and> cache_ok l (source_count env s))"
| "well_formed env (ConcatDataset ds ls l os) =
     (ds \<noteq> [] \<and> list_all (well_formed env) ds \<and> ls = accumulate (map (count env) ds)
      \<and> l = Some (last ls) \<and> os = 0 # butlast ls)"
| "well_formed env (MapDataset s fns l) =
     (well_formed_source env s \<and> cache_ok l (source_count env s))"
| "well_formed env (CacheDataset s fns c l) =
     (well_formed_source env s \<and> cache_ok l (source_count env s)
      \<and> int (length c) = source_count env s)"
| "well_formed env (SingleTextDataset p enc l) =
     (readers_agree env p enc \<and> cache_ok l (int (line_count env p enc)))"
| "well_formed env (TextDataset ps enc l) =
     (list_all (\<lambda>p. readers_agree env p enc) ps \<and> aligned env ps enc
      \<and> cache_ok l (if ps = [] then 0 else int (line_count env (hd ps) enc)))"
| "well_formed_source env (Raw xs) = True"
| "well_formed_source env (Node d) = well_formed env d"

subsection \<open>The function list as a list object\<close>

text \<open>
  In Python \<open>_map_func_list\<close> refers to a list object. A store holds the list objects,
  addressed by position. \<open>copy.deepcopy\<close> of a list of functions allocates a new list object
  with the same functions (a function is copied as itself), \<open>list.append\<close> changes a list
  object in place. \<open>MapDataset_init_list\<close> is the part of \<open>MapDataset.__init__\<close> that builds
  \<open>map_func_list\<close>: \<open>upstream\<close> is the reference held by the argument when it is a
  MapDataset, \<open>None\<close> otherwise; the result is the new store and the reference assigned to
  \<open>self._map_func_list\<close>. A reference is a position below the length of the store.
\<close>

type_synonym 'a store = "'a func list list"

definition deepcopy :: "'a store \<Rightarrow> nat \<Rightarrow> 'a store \<times> nat" where
  "deepcopy st r = (st @ [st ! r], length st)"

definition list_append :: "'a store \<Rightarrow> nat \<Rightarrow> 'a func \<Rightarrow> 'a store" where
  "list_append st r map_func = st[r := st ! r @ [map_func]]"

definition new_list :: "'a store \<Rightarrow> 'a func list \<Rightarrow> 'a store \<times> nat" where
  "new_list st fns = (st @ [fns], length st)"

definition MapDataset_init_list :: "'a store \<Rightarrow> nat option \<Rightarrow> 'a func \<Rightarrow> 'a store \<times> nat" where
  "MapDataset_init_list st upstream map_func =
     (case upstream of
        Some r \<Rightarrow>
          (case deepcopy st r of
             (st', map_func_list) \<Rightarrow> (list_append st' map_func_list map_func, map_func_list))
      | None \<Rightarrow> new_list st [map_func])"

subsection \<open>Snapshots and comprehensions\<close>

text \<open>
  The snapshot of a CacheDataset agrees at \<open>i\<close> with its upstream when indexing the snapshot
  gives what the source gives at \<open>i\<close>, passed through the stored functions.
\<close>

fun snapshot_agrees :: "env \<Rightarrow> linecache \<Rightarrow> 'a dataset \<Rightarrow> int \<Rightarrow> bool" where
  "snapshot_agrees env cache (CacheDataset s fns c l) i =
     (list_getitem c i =
        (case fst (source_getitem env cache s i) of
           Inl e \<Rightarrow> Inl e
         | Inr x \<Rightarrow> Inr (apply_map_funcs fns x)))"
| "snapshot_agrees env cache d i = True"

text \<open>
  A list comprehension \<^verbatim>\<open>[get(i) for i in indices]\<close> over an access that may raise and
  that changes the line cache: the list of the values, or the first error, and the line
  cache as the accesses made leave it.
\<close>

fun comprehension ::
  "(linecache \<Rightarrow> int \<Rightarrow> (error + 'b) \<times> linecache) \<Rightarrow> linecache \<Rightarrow> int list
     \<Rightarrow> (error + 'b list) \<times> linecache" where
  "comprehension get cache [] = (Inr [], cache)"
| "comprehension get cache (i # rest) =
     (case get cache i of
        (Inl e, cache') \<Rightarrow> (Inl e, cache')
      | (Inr x, cache') \<Rightarrow>
          (case comprehension get cache' rest of
             (Inl e, cache'') \<Rightarrow> (Inl e, cache'')
           | (Inr xs, cache'') \<Rightarrow> (Inr (x # xs), cache'')))"

text \<open>
  The right-hand side of the slicing law, for a dataset whose \<open>len\<close> is \<open>n\<close>:
  \<^verbatim>\<open>[S.get(i) for i in range(*slice(start, stop, step).indices(n))]\<close>.
\<close>

definition slicing_law ::
  "env \<Rightarrow> linecache \<Rightarrow> 'a dataset \<Rightarrow> int option \<Rightarrow> int option \<Rightarrow> int option \<Rightarrow> int
     \<Rightarrow> (error + 'a val list) \<times> linecache" where
  "slicing_law env cache S start stop step n =
     (case slice_indices start stop step n of
        Inl e \<Rightarrow> (Inl e, cache)
      | Inr (start', stop', step') \<Rightarrow>
          comprehension (\<lambda>cache' i. get_example env cache' S i) cache
            (py_range start' stop' step'))"

section \<open>Example files and nodes\<close>

text \<open>
  A small environment and nodes over it, on which the theorems below are instantiated.
  Text is ASCII unless said otherwise: \<open>ascii\<close> gives the code points of a string.
  The example files are shorter than one chunk of a decoder, have no byte order mark and no
  coding cookie, and their bytes above 127 start no valid UTF-8 sequence. On such files:
  \<^item> Latin-1 decodes every byte to its code point; UTF-8 decodes a file of ASCII bytes to
    the same code points, and on any other file raises UnicodeDecodeError before it has
    delivered any text;
  \<^item> \<open>tokenize.detect_encoding\<close> reads the first line, and the second one when the first
    is blank or a comment; it raises when a line it reads is not UTF-8 and returns UTF-8
    otherwise.
  The files:
  \<^item> \<open>short.txt\<close> has fewer lines than \<open>b.txt\<close>: the two are not aligned;
  \<^item> \<open>latin.txt\<close> holds the byte \<open>0xE9\<close>: Latin-1 text that is not UTF-8;
  \<^item> \<open>cr.txt\<close> is \<^verbatim>\<open>a\r\nb\rc\n\<close>: three lines in text mode, two line feed bytes;
  \<^item> \<open>empty.txt\<close> has no byte.
\<close>

definition ascii :: "string \<Rightarrow> str" where
  "ascii s = map of_char s"

definition is_ascii :: "bytes \<Rightarrow> bool" where
  "is_ascii b = list_all (\<lambda>c. of_char c < (128::nat)) b"

definition example_decode :: "string \<Rightarrow> bytes \<Rightarrow> str \<times> error option" where
  "example_decode encoding b =
     (if encoding = ''latin-1'' \<or> is_ascii b then (map of_char b, None)
      else ([], Some UnicodeDecodeError))"

text \<open>The lines that match \<^verbatim>\<open>^[ \t\f]*(?:[#\r\n]|$)\<close>.\<close>

definition blank_line :: "bytes \<Rightarrow> bool" where
  "blank_line line =
     (case dropWhile (\<lambda>c. c \<in> set [CHR '' '', CHR 0x09, CHR 0x0C]) line of
        [] \<Rightarrow> True
      | c # rest \<Rightarrow> c \<in> set [CHR ''#'', CHR 0x0D, newline])"

definition example_detect_encoding :: "bytes \<Rightarrow> string option" where
  "example_detect_encoding b =
     (case file_lines newline b of
        [] \<Rightarrow> Some ''utf-8''
      | first # rest \<Rightarrow>
          if \<not> is_ascii first then None
          else if \<not> blank_line first then Some ''utf-8''
          else
            (case rest of
               [] \<Rightarrow> Some ''utf-8''
             | second # rest' \<Rightarrow> if is_ascii second then Some ''utf-8'' else None))"

definition example_files :: "string \<Rightarrow> bytes option" where
  "example_files =
     [''a.txt'' \<mapsto> ''a'' @ [newline] @ ''b'' @ [newline],
      ''b.txt'' \<mapsto> ''x'' @ [newline] @ ''y'' @ [newline] @ ''z'',
      ''c.txt'' \<mapsto> ''1'' @ [newline] @ ''2'' @ [newline] @ ''3'' @ [newline],
      ''short.txt'' \<mapsto> ''p'' @ [newline],
      ''latin.txt'' \<mapsto> [CHR 0xE9, newline],
      ''cr.txt'' \<mapsto> ''a'' @ [CHR 0x0D, newline] @ ''b'' @ [CHR 0x0D] @ ''c'' @ [newline],
      ''empty.txt'' \<mapsto> []]"

definition example_env :: env where
  "example_env =
     \<lparr>files = example_files,
      codec_known = (\<lambda>encoding. encoding = ''utf-8'' \<or> encoding = ''latin-1''),
      decode = example_decode,
      detect_encoding = example_detect_encoding\<rparr>"

text \<open>The environment with no file, for nodes that read none.\<close>

definition no_files :: env where
  "no_files = example_env\<lparr>files := Map.empty\<rparr>"

definition example_concat :: "nat dataset" where
  "example_concat =
     ConcatDataset
       [SingleTextDataset ''a.txt'' ''utf-8'' (Some 2),
        TextDataset [''b.txt'', ''c.txt''] ''utf-8'' (Some 3)]
       [2, 5] (Some 5) [0, 2]"

definition example_misaligned :: "nat dataset" where
  "example_misaligned = TextDataset [''b.txt'', ''short.txt''] ''utf-8'' None"

definition example_latin :: "nat dataset" where
  "example_latin = SingleTextDataset ''latin.txt'' ''latin-1'' None"

definition example_cr :: "nat dataset" where
  "example_cr = SingleTextDataset ''cr.txt'' ''utf-8'' None"

definition double :: "nat func" where
  "double v = (case v of Obj n \<Rightarrow> Obj (n * 2) | x \<Rightarrow> x)"

definition increment :: "nat func" where
  "increment v = (case v of Obj n \<Rightarrow> Obj (n + 1) | x \<Rightarrow> x)"

definition example_text_a :: "nat dataset" where
  "example_text_a = SingleTextDataset ''a.txt'' ''utf-8'' None"

definition example_text_b :: "nat dataset" where
  "example_text_b = SingleTextDataset ''b.txt'' ''utf-8'' None"

text \<open>A CacheDataset whose snapshot is what its upstream yields.\<close>

definition example_cache :: "nat dataset" where
  "example_cache = CacheDataset_init (Node (MapDataset (Raw [Obj 3]) [double] None)) [Obj 6]"

text \<open>
  A CacheDataset built directly, whose snapshot is not what its upstream yields.
\<close>

definition example_stale_cache :: "nat dataset" where
  "example_stale_cache = CacheDataset_init (Node (Dataset_init (Raw [Obj 1]))) [Obj 5]"

text \<open>A ConcatDataset as its constructor builds it over one MapDataset.\<close>

definition example_concat_map :: "nat dataset" where
  "example_concat_map =
     ConcatDataset [MapDataset (Raw [Obj 3]) [double] (Some 1)] [1] (Some 1) [0]"

text \<open>
  A serializer for lists of strings of ASCII text without line feeds, one string per line.
\<close>

definition example_dump :: "nat val list \<Rightarrow> bytes" where
  "example_dump xs =
     concat (map (\<lambda>v. case v of Str s \<Rightarrow> map char_of s @ [newline] | x \<Rightarrow> []) xs)"

definition example_loads :: "bytes \<Rightarrow> error + nat val list" where
  "example_loads b =
     Inr (map (\<lambda>line. Str (map of_char (rstrip [newline] line))) (file_lines newline b))"

section \<open>Auxiliary facts\<close>

subsection \<open>Length caches do not influence access\<close>

lemma get_example_erase:
  fixes d :: "'a dataset" and s :: "'a source"
  shows "get_example env cache (erase d) i = get_example env cache d i"
    and "source_getitem env cache (erase_source s) i = source_getitem env cache s i"
  by (induction env cache d i and env cache s i rule: get_example_source_getitem.induct)
     (simp_all add: Let_def split: sum.splits)

lemma iter_erase:
  fixes d :: "'a dataset" and s :: "'a source"
  shows "iter env (erase d) = iter env d"
    and "source_iter env (erase_source s) = source_iter env s"
  by (induction env d and env s rule: iter_source_iter.induct)
     (simp_all add: comp_def cong: map_cong)

lemma erase_set_length:
  "\<not> is_ConcatDataset d \<Longrightarrow> erase (set_length v d) = erase d"
  by (cases d) simp_all

lemma get_length_not_concat:
  "get_length env d = Inr (n, d') \<Longrightarrow> \<not> is_ConcatDataset d'"
  by (cases d) (auto split: sum.splits)

lemma erase_len:
  fixes d d1 d2 :: "'a dataset" and s :: "'a source"
  shows "Dataset_len env d = Inr (n, d') \<Longrightarrow> erase d' = erase d"
    and "len env d1 = Inr (n1, d1') \<Longrightarrow> erase d1' = erase d1"
    and "get_length env d2 = Inr (n2, d2') \<Longrightarrow> erase d2' = erase d2"
    and "source_len env s = Inr (n3, s') \<Longrightarrow> erase_source s' = erase_source s"
proof (induction env d and env d1 and env d2 and env s
    arbitrary: n d' and n1 d1' and n2 d2' and n3 s'
    rule: Dataset_len_len_get_length_source_len.induct)
  case (1 env self)
  show ?case
  proof (cases "f_length self")
    case None
    with "1.prems" obtain self' where g: "get_length env self = Inr (n, self')"
      and d': "d' = set_length (Some n) self'"
      by (auto simp: Dataset_len.simps split: sum.splits)
    from "1.IH" [OF None g] have "erase self' = erase self" .
    with get_length_not_concat [OF g] d' show ?thesis
      by (simp add: erase_set_length)
  next
    case (Some m)
    with "1.prems" show ?thesis by (simp add: Dataset_len.simps)
  qed
qed (auto simp: len.simps split: sum.splits if_splits)

lemma get_example_len:
  "len env0 d = Inr (n, d') \<Longrightarrow> get_example env cache d' i = get_example env cache d i"
  by (metis erase_len(2) get_example_erase(1))

lemma iter_len:
  "len env0 d = Inr (n, d') \<Longrightarrow> iter env d' = iter env d"
  by (metis erase_len(2) iter_erase(1))

lemma f_length_set_length: "f_length (set_length v d) = v"
  by (cases d) simp_all

lemma Dataset_len_cached:
  "Dataset_len env d = Inr (n, d') \<Longrightarrow> f_length d' = Some n"
  by (auto simp: Dataset_len.simps f_length_set_length split: option.splits sum.splits)

lemma Dataset_len_of_cached:
  "f_length d = Some n \<Longrightarrow> Dataset_len env d = Inr (n, d)"
  by (simp add: Dataset_len.simps)

lemma len_nonneg: "len env d = Inr (n, d') \<Longrightarrow> 0 \<le> n"
  by (auto simp: len.simps split: sum.splits if_splits)

lemma len_cached:
  assumes "len env d = Inr (n, d')"
  shows "len env' d' = Inr (n, d')"
proof -
  from assms have "Dataset_len env d = Inr (n, d')" and "\<not> n < 0"
    by (auto simp: len.simps split: sum.splits if_splits)
  from Dataset_len_of_cached [OF Dataset_len_cached [OF this(1)], of env'] this(2)
  show ?thesis by (simp add: len.simps)
qed

lemma bisect_two:
  "bisect [a, b] i = (if i < b then if i < a then 0 else 1 else 2)"
  by (simp add: bisect_def bisect_loop.simps Let_def)

subsection \<open>Lines of a file\<close>

lemma count_loop_file_lines: "count_loop s c = c + int (length (file_lines newline s))"
proof (induction s c rule: count_loop.induct)
  case (1 mm count)
  obtain line rest where r: "readline newline mm = (line, rest)"
    by (cases "readline newline mm")
  show ?case
  proof (cases "line = []")
    case True
    with r show ?thesis
      by (simp add: count_loop.simps [of mm] file_lines.simps [of newline mm])
  next
    case False
    with r "1.IH" show ?thesis
      by (auto simp: count_loop.simps [of mm] file_lines.simps [of newline mm])
  qed
qed

lemma rstrip_newline: "rstrip linesep (x @ [LF]) = rstrip linesep x"
  by (simp add: rstrip_def linesep_def)

lemma rstrip_body: "LF \<notin> set body \<Longrightarrow> rstrip linesep body = body"
proof (cases "rev body")
  case Nil
  then show ?thesis by (simp add: rstrip_def)
next
  case (Cons c cs)
  assume "LF \<notin> set body"
  moreover have "c \<in> set body" using Cons by (metis list.set_intros(1) set_rev)
  ultimately have "c \<noteq> LF" by auto
  with Cons have "rev (dropWhile (\<lambda>c. c \<in> set linesep) (rev body)) = rev (rev body)"
    by (simp add: linesep_def)
  then show ?thesis by (simp add: rstrip_def)
qed

lemma readline_line:
  assumes "readline nl s = (line, rest)"
  shows "\<exists>body. nl \<notin> set body \<and> set body \<subseteq> set s \<and> (line = body @ [nl] \<or> line = body)"
proof (cases "dropWhile (\<lambda>c. c \<noteq> nl) s")
  case Nil
  then have "nl \<notin> set s"
    by auto
  moreover from assms Nil have "line = s"
    by (simp add: readline_def)
  ultimately show ?thesis by blast
next
  case (Cons c cs)
  have c: "c = nl"
    using hd_dropWhile [of "\<lambda>c. c \<noteq> nl" s] Cons by simp
  have t: "nl \<notin> set (takeWhile (\<lambda>c. c \<noteq> nl) s)"
    using set_takeWhileD [of nl "\<lambda>c. c \<noteq> nl" s] by blast
  have u: "set (takeWhile (\<lambda>c. c \<noteq> nl) s) \<subseteq> set s"
    using set_takeWhileD [of _ "\<lambda>c. c \<noteq> nl" s] by blast
  from assms Cons c have "line = takeWhile (\<lambda>c. c \<noteq> nl) s @ [nl]"
    by (simp add: readline_def)
  with t u show ?thesis by blast
qed

lemma readline_rest:
  assumes "readline nl s = (line, rest)"
  shows "set rest \<subseteq> set s"
proof (cases "dropWhile (\<lambda>c. c \<noteq> nl) s")
  case Nil
  with assms show ?thesis by (simp add: readline_def)
next
  case (Cons c cs)
  with assms have "rest = cs" by (simp add: readline_def)
  moreover have "set (dropWhile (\<lambda>c. c \<noteq> nl) s) \<subseteq> set s"
    by (simp add: set_dropWhileD subsetI)
  ultimately show ?thesis using Cons by auto
qed

lemma file_lines_line:
  "line \<in> set (file_lines nl s) \<Longrightarrow>
     \<exists>body. nl \<notin> set body \<and> set body \<subseteq> set s \<and> (line = body @ [nl] \<or> line = body)"
proof (induction nl s rule: file_lines.induct)
  case (1 nl s)
  obtain l rest where r: "readline nl s = (l, rest)" by (cases "readline nl s")
  show ?case
  proof (cases "l = []")
    case True
    with r "1.prems" show ?thesis by (simp add: file_lines.simps [of nl s])
  next
    case False
    with r "1.prems" have "line = l \<or> line \<in> set (file_lines nl rest)"
      by (simp add: file_lines.simps [of nl s])
    then show ?thesis
    proof
      assume "line = l"
      with readline_line [OF r] show ?thesis by simp
    next
      assume "line \<in> set (file_lines nl rest)"
      from "1.IH" [OF r [symmetric] False this] readline_rest [OF r] show ?thesis
        by blast
    qed
  qed
qed

lemma universal_newlines_no_CR: "CR \<notin> set (universal_newlines t)"
  by (induction t rule: universal_newlines.induct) (auto simp: CR_def LF_def)

lemma stripped_line:
  assumes "line \<in> set (text_lines t)"
  shows "LF \<notin> set (rstrip linesep line) \<and> CR \<notin> set (rstrip linesep line)
     \<and> (line = rstrip linesep line @ [LF] \<or> line = rstrip linesep line)"
proof -
  from file_lines_line [OF assms [unfolded text_lines_def]] obtain body
    where b: "LF \<notin> set body" and s: "set body \<subseteq> set (universal_newlines t)"
      and l: "line = body @ [LF] \<or> line = body" by blast
  from l have "rstrip linesep line = body"
    using b by (auto simp: rstrip_newline rstrip_body)
  with b s l universal_newlines_no_CR [of t] show ?thesis by auto
qed

lemma length_complete_last: "length (complete_last lines) = length lines"
  by (simp add: complete_last_def)

lemma rstrip_complete_last:
  assumes "k < length lines"
  shows "rstrip linesep (complete_last lines ! k) = rstrip linesep (lines ! k)"
proof -
  have ne: "lines \<noteq> []" using assms by auto
  show ?thesis
  proof (cases "k = length lines - 1")
    case True
    then have "lines ! k = last lines"
      using ne by (simp add: last_conv_nth)
    moreover have "(butlast lines @ [last lines @ [LF]]) ! k = last lines @ [LF]"
      using True by (simp add: nth_append)
    ultimately show ?thesis
      by (simp add: complete_last_def rstrip_newline)
  next
    case False
    then have "k < length (butlast lines)" using assms by simp
    then have "(butlast lines @ [last lines @ [LF]]) ! k = lines ! k"
      by (simp add: nth_append nth_butlast)
    then show ?thesis
      by (simp add: complete_last_def)
  qed
qed

subsection \<open>The line cache\<close>

lemma coherent_empty: "coherent env Map.empty"
  by (simp add: coherent_def)

lemma getlines_coherent:
  assumes "coherent env cache"
  shows "fst (linecache_getlines env cache p) = fresh_lines env p"
    and "coherent env (snd (linecache_getlines env cache p))"
proof -
  show "fst (linecache_getlines env cache p) = fresh_lines env p"
  proof (cases "cache p")
    case None
    then show ?thesis
      by (simp add: linecache_getlines_def fresh_lines_def split: option.splits)
  next
    case (Some lines)
    with assms have "updatecache env p = Some lines" by (simp add: coherent_def)
    with Some show ?thesis by (simp add: linecache_getlines_def fresh_lines_def)
  qed
  show "coherent env (snd (linecache_getlines env cache p))"
    using assms by (auto simp: linecache_getlines_def coherent_def split: option.splits)
qed

lemma getline_coherent:
  assumes "coherent env cache"
  shows "fst (linecache_getline env cache p lineno) = fresh_line env p lineno"
    and "coherent env (snd (linecache_getline env cache p lineno))"
  using getlines_coherent [OF assms, of p]
  by (auto simp: linecache_getline_def fresh_line_def split: prod.splits)

lemma getline_all_coherent:
  "coherent env cache \<Longrightarrow>
     fst (getline_all env cache ps lineno) = map (\<lambda>p. fresh_line env p lineno) ps
     \<and> coherent env (snd (getline_all env cache ps lineno))"
proof (induction ps arbitrary: cache)
  case Nil
  then show ?case by simp
next
  case (Cons p ps)
  obtain line cache' where g: "linecache_getline env cache p lineno = (line, cache')"
    by (cases "linecache_getline env cache p lineno")
  from getline_coherent [OF Cons.prems, of p lineno] g
  have l: "line = fresh_line env p lineno" and c: "coherent env cache'"
    by simp_all
  from Cons.IH [OF c] g l show ?case
    by (auto split: prod.splits)
qed

subsection \<open>Files on which the readers agree\<close>

lemma readers_agree_file:
  assumes "readers_agree env p enc"
  shows "open_text env p enc = Inr (decoded env p enc, None)"
    and "fresh_lines env p = complete_last (decoded env p enc)"
    and "\<exists>b. files env p = Some b
           \<and> count_lines env p enc
               = (if b = [] then Inl ValueError else Inr (int (length (decoded env p enc))))"
proof -
  from assms obtain b where b: "files env p = Some b" and k: "codec_known env enc"
    and d: "snd (decode env enc b) = None"
    and u: "updatecache env p = Some (complete_last (decoded env p enc))"
    and n: "length (file_lines newline b) = length (decoded env p enc)"
    by (auto simp: readers_agree_def split: option.splits)
  from b k d show "open_text env p enc = Inr (decoded env p enc, None)"
    by (cases "decode env enc b") (simp add: open_text_def decoded_def)
  from u show "fresh_lines env p = complete_last (decoded env p enc)"
    by (simp add: fresh_lines_def)
  from b k n show "\<exists>b. files env p = Some b
           \<and> count_lines env p enc
               = (if b = [] then Inl ValueError else Inr (int (length (decoded env p enc))))"
    by (simp add: count_lines_def count_loop_file_lines)
qed

lemma fresh_line_decoded:
  assumes "readers_agree env p enc" and "0 \<le> i" and "nat i < length (decoded env p enc)"
  shows "rstrip linesep (fresh_line env p (i + 1)) = rstrip linesep (decoded env p enc ! nat i)"
proof -
  have "fresh_line env p (i + 1) = complete_last (decoded env p enc) ! nat i"
    using assms(2,3)
    by (auto simp: fresh_line_def readers_agree_file(2) [OF assms(1)] length_complete_last)
  then show ?thesis
    using assms(3) by (simp add: rstrip_complete_last)
qed

subsection \<open>Running sums and binary search\<close>

lemma length_accumulate_from: "length (accumulate_from a xs) = Suc (length xs)"
  by (induction xs arbitrary: a) simp_all

lemma accumulate_from_nth:
  "k \<le> length xs \<Longrightarrow> accumulate_from a xs ! k = a + sum_list (take k xs)"
proof (induction xs arbitrary: a k)
  case Nil
  then show ?case by simp
next
  case (Cons x xs)
  then show ?case by (cases k) simp_all
qed

lemma length_accumulate: "length (accumulate ns) = length ns"
  by (cases ns) (simp_all add: length_accumulate_from)

lemma accumulate_nth:
  "k < length ns \<Longrightarrow> accumulate ns ! k = sum_list (take (Suc k) ns)"
  by (cases ns) (simp_all add: accumulate_from_nth)

lemma last_accumulate: "ns \<noteq> [] \<Longrightarrow> last (accumulate ns) = sum_list ns"
proof -
  assume ne: "ns \<noteq> []"
  then have "accumulate ns \<noteq> []"
    using length_accumulate [of ns] by auto
  then have "last (accumulate ns) = accumulate ns ! (length ns - 1)"
    by (simp add: last_conv_nth length_accumulate)
  also have "\<dots> = sum_list (take (Suc (length ns - 1)) ns)"
    using ne by (intro accumulate_nth) simp
  finally show ?thesis using ne by simp
qed

lemma offsets_nth:
  assumes "j < length ns"
  shows "(0 # butlast (accumulate ns)) ! j = sum_list (take j ns)"
proof (cases j)
  case 0
  then show ?thesis by simp
next
  case (Suc m)
  with assms have "m < length (butlast (accumulate ns))"
    by (simp add: length_accumulate)
  then have "butlast (accumulate ns) ! m = accumulate ns ! m"
    by (simp add: nth_butlast)
  with Suc assms show ?thesis
    by (simp add: accumulate_nth)
qed

lemma sum_take_mono:
  assumes "\<forall>n \<in> set ns. (0::int) \<le> n" and "j \<le> k"
  shows "sum_list (take j ns) \<le> sum_list (take k ns)"
proof -
  have "take k ns = take j ns @ take (k - j) (drop j ns)"
    using assms(2) by (metis le_add_diff_inverse take_add)
  moreover have "0 \<le> sum_list (take (k - j) (drop j ns))"
    using assms(1) by (intro sum_list_nonneg) (meson in_set_dropD in_set_takeD)
  ultimately show ?thesis by simp
qed

lemma bisect_loop_spec:
  assumes "sorted a" and "lo \<le> hi" and "hi \<le> length a"
    and "\<forall>k < lo. a ! k \<le> x"
    and "\<forall>k. hi \<le> k \<and> k < length a \<longrightarrow> x < a ! k"
  shows "bisect_loop a x lo hi \<le> length a
    \<and> (\<forall>k < bisect_loop a x lo hi. a ! k \<le> x)
    \<and> (\<forall>k. bisect_loop a x lo hi \<le> k \<and> k < length a \<longrightarrow> x < a ! k)"
  using assms
proof (induction a x lo hi rule: bisect_loop.induct)
  case (1 a x lo hi)
  show ?case
  proof (cases "lo < hi")
    case False
    with "1.prems" have "lo = hi" by simp
    moreover have "bisect_loop a x hi hi = hi"
      by (simp add: bisect_loop.simps [of a x hi hi])
    ultimately show ?thesis
      using "1.prems" by simp
  next
    case True
    define mid where "mid = (lo + hi) div 2"
    have m: "lo \<le> mid" "mid < hi" using True by (auto simp: mid_def)
    show ?thesis
    proof (cases "x < a ! mid")
      case less: True
      have up: "\<forall>k. mid \<le> k \<and> k < length a \<longrightarrow> x < a ! k"
      proof (intro allI impI)
        fix k assume "mid \<le> k \<and> k < length a"
        then have "a ! mid \<le> a ! k"
          using "1.prems"(1) by (simp add: sorted_nth_mono)
        with less show "x < a ! k" by simp
      qed
      have e: "bisect_loop a x lo hi = bisect_loop a x lo mid"
        using True less by (simp add: bisect_loop.simps [of a x lo hi] mid_def Let_def)
      have "mid \<le> length a" using m "1.prems"(3) by simp
      from "1.IH"(1) [OF True mid_def less "1.prems"(1) m(1) this "1.prems"(4) up] e
      show ?thesis by simp
    next
      case False
      have low: "\<forall>k < mid + 1. a ! k \<le> x"
      proof (intro allI impI)
        fix k assume "k < mid + 1"
        then have "a ! k \<le> a ! mid"
          using "1.prems"(1,3) m by (intro sorted_nth_mono) auto
        with False show "a ! k \<le> x" by simp
      qed
      have e: "bisect_loop a x lo hi = bisect_loop a x (mid + 1) hi"
        using True False by (simp add: bisect_loop.simps [of a x lo hi] mid_def Let_def)
      have "mid + 1 \<le> hi" using m by simp
      from "1.IH"(2) [OF True mid_def False "1.prems"(1) this "1.prems"(3) low "1.prems"(5)] e
      show ?thesis by simp
    qed
  qed
qed

lemma bisect_spec:
  assumes "sorted a"
  shows "bisect a x \<le> length a
    \<and> (\<forall>k < bisect a x. a ! k \<le> x)
    \<and> (\<forall>k. bisect a x \<le> k \<and> k < length a \<longrightarrow> x < a ! k)"
  unfolding bisect_def using assms by (intro bisect_loop_spec) simp_all

lemma sorted_accumulate:
  assumes "\<forall>n \<in> set ns. (0::int) \<le> n"
  shows "sorted (accumulate ns)"
proof (subst sorted_iff_nth_mono, intro allI impI)
  fix i j assume "i \<le> j" and "j < length (accumulate ns)"
  then have "i < length ns" "j < length ns" by (simp_all add: length_accumulate)
  then show "accumulate ns ! i \<le> accumulate ns ! j"
    using \<open>i \<le> j\<close> by (simp add: accumulate_nth sum_take_mono [OF assms])
qed

lemma bisect_accumulate:
  assumes nn: "\<forall>n \<in> set ns. (0::int) \<le> n" and "0 \<le> i" and "i < sum_list ns"
  shows "bisect (accumulate ns) i < length ns
    \<and> sum_list (take (bisect (accumulate ns) i) ns) \<le> i
    \<and> i < sum_list (take (Suc (bisect (accumulate ns) i)) ns)"
proof -
  let ?j = "bisect (accumulate ns) i"
  note sp = bisect_spec [OF sorted_accumulate [OF nn], of i]
  have ne: "ns \<noteq> []" using assms(2,3) by auto
  have lt: "?j < length ns"
  proof (rule ccontr)
    assume "\<not> ?j < length ns"
    then have "length ns - 1 < ?j" using ne by (cases ns) auto
    with sp have "accumulate ns ! (length ns - 1) \<le> i" by blast
    moreover have "accumulate ns ! (length ns - 1) = sum_list ns"
      using ne by (simp add: accumulate_nth)
    ultimately show False using assms(3) by simp
  qed
  have lo: "sum_list (take ?j ns) \<le> i"
  proof (cases ?j)
    case 0
    then show ?thesis using assms(2) by simp
  next
    case (Suc m)
    with sp have "accumulate ns ! m \<le> i" by simp
    moreover have "m < length ns" using lt Suc by simp
    ultimately show ?thesis using Suc by (simp add: accumulate_nth)
  qed
  have "i < accumulate ns ! ?j"
    using sp lt by (simp add: length_accumulate)
  then have "i < sum_list (take (Suc ?j) ns)"
    using lt by (simp add: accumulate_nth)
  with lt lo show ?thesis by simp
qed

lemma concat_nth_split:
  assumes "j < length xss"
    and "int (length (concat (take j xss))) \<le> i"
    and "i < int (length (concat (take (Suc j) xss)))"
  shows "concat xss ! nat i = (xss ! j) ! nat (i - int (length (concat (take j xss))))"
  using assms
proof (induction xss arbitrary: i j)
  case Nil
  then show ?case by simp
next
  case (Cons xs xss)
  show ?case
  proof (cases j)
    case 0
    with Cons.prems have "nat i < length xs" by simp
    with 0 show ?thesis by (simp add: nth_append)
  next
    case (Suc m)
    with Cons.prems have m: "m < length xss" by simp
    let ?i = "i - int (length xs)"
    have a: "int (length (concat (take m xss))) \<le> ?i"
      using Cons.prems Suc by simp
    have b: "?i < int (length (concat (take (Suc m) xss)))"
      using Cons.prems Suc by simp
    have "concat xss ! nat ?i = (xss ! m) ! nat (?i - int (length (concat (take m xss))))"
      using Cons.IH [OF m a b] .
    moreover have "length xs \<le> nat i" using a by simp
    moreover have "nat i - length xs = nat ?i" using a by simp
    ultimately show ?thesis
      using Suc by (simp add: nth_append algebra_simps)
  qed
qed

subsection \<open>Rows of a zip\<close>

lemma next_all_row:
  "next_all its = Inr (row, its') \<Longrightarrow>
     row = map (\<lambda>it. hd (fst it)) its \<and> its' = map (\<lambda>it. (tl (fst it), snd it)) its
     \<and> (\<forall>it \<in> set its. fst it \<noteq> [])"
proof (induction its arbitrary: row its' rule: next_all.induct)
  case 1
  then show ?case by simp
next
  case (2 r rest)
  then show ?case by simp
next
  case (3 x xs r rest)
  from "3.prems" obtain row1 rest1 where n: "next_all rest = Inr (row1, rest1)"
    and e: "row = x # row1" "its' = (xs, r) # rest1"
    by (auto split: sum.splits)
  from "3.IH" [OF n] e show ?case by simp
qed

lemma next_all_end:
  "next_all its = Inl r \<Longrightarrow> \<exists>it \<in> set its. fst it = [] \<and> snd it = r"
proof (induction its rule: next_all.induct)
  case 1
  then show ?case by simp
next
  case (2 r' rest)
  then show ?case by simp
next
  case (3 x xs r' rest)
  then show ?case by (auto split: sum.splits)
qed

lemma zip_star_Nil: "zip_star [] = ([], None)"
  by (simp add: zip_star.simps [of "[]"])

lemma zip_star_stop: "its \<noteq> [] \<Longrightarrow> next_all its = Inl r \<Longrightarrow> zip_star its = ([], r)"
  by (simp add: zip_star.simps [of its])

lemma zip_star_step:
  "its \<noteq> [] \<Longrightarrow> next_all its = Inr (row, its') \<Longrightarrow>
     zip_star its = (row # fst (zip_star its'), snd (zip_star its'))"
  by (simp add: zip_star.simps [of its] split: prod.splits)

lemma zip_star_le:
  "it \<in> set its \<Longrightarrow> length (fst (zip_star its)) \<le> length (fst it)"
proof (induction its arbitrary: it rule: zip_star.induct)
  case (1 its)
  from "1.prems" have ne: "its \<noteq> []" by auto
  show ?case
  proof (cases "next_all its")
    case (Inl r)
    with ne show ?thesis by (simp add: zip_star_stop)
  next
    case (Inr p)
    obtain row its' where p: "p = (row, its')" by (cases p)
    from next_all_row [OF Inr [unfolded p]]
    have its': "its' = map (\<lambda>it. (tl (fst it), snd it)) its"
      and full: "\<forall>it \<in> set its. fst it \<noteq> []"
      by simp_all
    have "(tl (fst it), snd it) \<in> set its'"
      using "1.prems" its' by auto
    from "1.IH" [OF ne Inr p [symmetric] this]
    have "length (fst (zip_star its')) \<le> length (tl (fst it))"
      by simp
    moreover have "fst it \<noteq> []" using full "1.prems" by simp
    ultimately show ?thesis
      using zip_star_step [OF ne Inr [unfolded p]] by (cases "fst it") simp_all
  qed
qed

lemma zip_star_attained:
  "its \<noteq> [] \<Longrightarrow> \<exists>it \<in> set its. length (fst (zip_star its)) = length (fst it)"
proof (induction its rule: zip_star.induct)
  case (1 its)
  show ?case
  proof (cases "next_all its")
    case (Inl r)
    from next_all_end [OF Inl] obtain it where "it \<in> set its" "fst it = []" by blast
    with zip_star_stop [OF "1.prems" Inl] show ?thesis
      by auto
  next
    case (Inr p)
    obtain row its' where p: "p = (row, its')" by (cases p)
    from next_all_row [OF Inr [unfolded p]]
    have its': "its' = map (\<lambda>it. (tl (fst it), snd it)) its"
      and full: "\<forall>it \<in> set its. fst it \<noteq> []"
      by simp_all
    have "its' \<noteq> []" using its' "1.prems" by simp
    from "1.IH" [OF "1.prems" Inr p [symmetric] this] its'
    obtain it where it: "it \<in> set its"
      and l: "length (fst (zip_star its')) = length (tl (fst it))"
      by auto
    from full it have "fst it \<noteq> []" by simp
    with l have "length (fst (zip_star its)) = length (fst it)"
      using zip_star_step [OF "1.prems" Inr [unfolded p]] by (cases "fst it") simp_all
    with it show ?thesis by blast
  qed
qed

lemma zip_star_ending:
  "its \<noteq> [] \<Longrightarrow>
     \<exists>it \<in> set its. length (fst it) = length (fst (zip_star its)) \<and> snd it = snd (zip_star its)"
proof (induction its rule: zip_star.induct)
  case (1 its)
  show ?case
  proof (cases "next_all its")
    case (Inl r)
    from next_all_end [OF Inl] obtain it where "it \<in> set its" "fst it = []" "snd it = r"
      by blast
    with zip_star_stop [OF "1.prems" Inl] show ?thesis
      by auto
  next
    case (Inr p)
    obtain row its' where p: "p = (row, its')" by (cases p)
    from next_all_row [OF Inr [unfolded p]]
    have its': "its' = map (\<lambda>it. (tl (fst it), snd it)) its"
      and full: "\<forall>it \<in> set its. fst it \<noteq> []"
      by simp_all
    have "its' \<noteq> []" using its' "1.prems" by simp
    from "1.IH" [OF "1.prems" Inr p [symmetric] this] its'
    obtain it where it: "it \<in> set its"
      and l: "length (tl (fst it)) = length (fst (zip_star its'))"
      and r: "snd it = snd (zip_star its')"
      by auto
    from full it have "fst it \<noteq> []" by simp
    with l r have "length (fst it) = length (fst (zip_star its)) \<and> snd it = snd (zip_star its)"
      using zip_star_step [OF "1.prems" Inr [unfolded p]] by (cases "fst it") simp_all
    with it show ?thesis by blast
  qed
qed

lemma length_zip_star:
  assumes "its \<noteq> []"
  shows "length (fst (zip_star its)) = Min (set (map (\<lambda>it. length (fst it)) its))"
proof -
  have "Min (set (map (\<lambda>it. length (fst it)) its)) = length (fst (zip_star its))"
  proof (rule Min_eqI)
    show "finite (set (map (\<lambda>it. length (fst it)) its))" by simp
    show "length (fst (zip_star its)) \<le> y" if "y \<in> set (map (\<lambda>it. length (fst it)) its)" for y
      using that zip_star_le by auto
    show "length (fst (zip_star its)) \<in> set (map (\<lambda>it. length (fst it)) its)"
      using zip_star_attained [OF assms] by auto
  qed
  then show ?thesis by simp
qed

lemma tl_nth: "xs \<noteq> [] \<Longrightarrow> tl xs ! m = xs ! Suc m"
  by (cases xs) simp_all

lemma zip_star_nth:
  "k < length (fst (zip_star its)) \<Longrightarrow> fst (zip_star its) ! k = map (\<lambda>it. fst it ! k) its"
proof (induction its arbitrary: k rule: zip_star.induct)
  case (1 its)
  show ?case
  proof (cases "its = []")
    case True
    with "1.prems" show ?thesis by (simp add: zip_star_Nil)
  next
    case ne: False
    show ?thesis
    proof (cases "next_all its")
      case (Inl r)
      with ne "1.prems" show ?thesis by (simp add: zip_star_stop)
    next
      case (Inr p)
      obtain row its' where p: "p = (row, its')" by (cases p)
      from next_all_row [OF Inr [unfolded p]]
      have row: "row = map (\<lambda>it. hd (fst it)) its"
        and its': "its' = map (\<lambda>it. (tl (fst it), snd it)) its"
        and full: "\<forall>it \<in> set its. fst it \<noteq> []"
        by simp_all
      have z: "fst (zip_star its) = row # fst (zip_star its')"
        using zip_star_step [OF ne Inr [unfolded p]] by simp
      show ?thesis
      proof (cases k)
        case 0
        with z row full show ?thesis by (simp add: hd_conv_nth)
      next
        case (Suc m)
        with "1.prems" z have "m < length (fst (zip_star its'))" by simp
        from "1.IH" [OF ne Inr p [symmetric] this] Suc z its' full show ?thesis
          by (simp add: tl_nth comp_def)
      qed
    qed
  qed
qed

lemma zip_star_exhausted:
  "\<forall>it \<in> set its. snd it = None \<Longrightarrow> snd (zip_star its) = None"
proof (induction its rule: zip_star.induct)
  case (1 its)
  show ?case
  proof (cases "its = []")
    case True
    then show ?thesis by (simp add: zip_star_Nil)
  next
    case ne: False
    show ?thesis
    proof (cases "next_all its")
      case (Inl r)
      from next_all_end [OF Inl] "1.prems" have "r = None" by auto
      with ne Inl show ?thesis by (simp add: zip_star_stop)
    next
      case (Inr p)
      obtain row its' where p: "p = (row, its')" by (cases p)
      from next_all_row [OF Inr [unfolded p]]
      have its': "its' = map (\<lambda>it. (tl (fst it), snd it)) its"
        by simp
      with "1.prems" have "\<forall>it \<in> set its'. snd it = None" by auto
      from "1.IH" [OF ne Inr p [symmetric] this] show ?thesis
        using zip_star_step [OF ne Inr [unfolded p]] by simp
    qed
  qed
qed

lemma chain_all_exhausted:
  "\<forall>it \<in> set its. snd it = None \<Longrightarrow> chain its = (concat (map fst its), None)"
proof (induction its)
  case Nil
  then show ?case by simp
next
  case (Cons it its)
  obtain xs r where it: "it = (xs, r)" by (cases it)
  with Cons show ?case by simp
qed

lemma int_length_concat:
  "int (length (concat xss)) = sum_list (map (\<lambda>xs. int (length xs)) xss)"
  by (induction xss) simp_all

subsection \<open>Well-formed nodes: iteration, indexed access and length agree\<close>

lemma open_all_files:
  "list_all (\<lambda>p. readers_agree env p enc) ps \<Longrightarrow>
     open_all env ps enc = Inr (map (\<lambda>p. (decoded env p enc, None)) ps)"
  by (induction ps) (auto simp: readers_agree_file(1))

lemma iter_SingleText:
  "readers_agree env p enc \<Longrightarrow>
     iter env (SingleTextDataset p enc l)
       = (map (\<lambda>line. Str (rstrip linesep line)) (decoded env p enc), None)"
  by (simp add: readers_agree_file(1))

lemma count_SingleText:
  "readers_agree env p enc \<Longrightarrow>
     count env (SingleTextDataset p enc l) = int (line_count env p enc)"
  by (simp add: count_def readers_agree_file(1) line_count_def)

lemma iter_Text:
  assumes "list_all (\<lambda>p. readers_agree env p enc) ps"
  shows "iter env (TextDataset ps enc l)
      = (map (\<lambda>lines. Tuple (map (rstrip linesep) lines))
           (fst (zip_star (map (\<lambda>p. (decoded env p enc, None)) ps))), None)"
proof -
  have "snd (zip_star (map (\<lambda>p. (decoded env p enc, None :: error option)) ps)) = None"
    by (intro zip_star_exhausted) simp
  then show ?thesis
    using assms by (auto simp: open_all_files split: prod.splits)
qed

lemma count_Text:
  assumes "list_all (\<lambda>p. readers_agree env p enc) ps" and "aligned env ps enc"
  shows "count env (TextDataset ps enc l)
         = (if ps = [] then 0 else int (line_count env (hd ps) enc))"
proof (cases "ps = []")
  case True
  then show ?thesis by (simp add: count_def zip_star_Nil)
next
  case False
  define its where "its = map (\<lambda>p. (decoded env p enc, None :: error option)) ps"
  have "map (\<lambda>it. length (fst it)) its = map (\<lambda>p. line_count env (hd ps) enc) ps"
    unfolding its_def using assms(2)
    by (simp add: comp_def aligned_def list_all_iff line_count_def)
  moreover have "hd ps \<in> set ps"
    using False by simp
  ultimately have "set (map (\<lambda>it. length (fst it)) its) = {line_count env (hd ps) enc}"
    by (simp only: set_map) blast
  moreover have "length (fst (zip_star its)) = Min (set (map (\<lambda>it. length (fst it)) its))"
    using False by (intro length_zip_star) (simp add: its_def)
  ultimately have z: "length (fst (zip_star its)) = line_count env (hd ps) enc"
    by simp
  show ?thesis
    unfolding count_def iter_Text [OF assms(1)] its_def [symmetric] using False z by simp
qed

lemma count_Concat:
  assumes "\<forall>d \<in> set ds. snd (iter env d) = None"
  shows "iter env (ConcatDataset ds ls l os) = (concat (map (\<lambda>d. fst (iter env d)) ds), None)"
    and "count env (ConcatDataset ds ls l os) = sum_list (map (count env) ds)"
proof -
  have "chain (map (iter env) ds) = (concat (map fst (map (iter env) ds)), None)"
    using assms by (intro chain_all_exhausted) simp
  then show it: "iter env (ConcatDataset ds ls l os)
      = (concat (map (\<lambda>d. fst (iter env d)) ds), None)"
    by (simp add: comp_def)
  show "count env (ConcatDataset ds ls l os) = sum_list (map (count env) ds)"
    unfolding count_def it
    by (simp add: int_length_concat comp_def count_def [abs_def])
qed

lemma concat_access:
  assumes ex: "\<forall>d \<in> set ds. snd (iter env d) = None"
    and ih: "\<forall>d \<in> set ds. \<forall>k. 0 \<le> k \<and> k < count env d \<longrightarrow>
               fst (get_example env cache d k) = Inr (fst (iter env d) ! nat k)"
    and ls: "ls = accumulate (map (count env) ds)" and os: "os = 0 # butlast ls"
    and k: "0 \<le> k" "k < count env (ConcatDataset ds ls l os)"
  shows "fst (get_example env cache (ConcatDataset ds ls l os) k)
         = Inr (fst (iter env (ConcatDataset ds ls l os)) ! nat k)"
proof -
  let ?ns = "map (count env) ds"
  let ?xss = "map (\<lambda>d. fst (iter env d)) ds"
  let ?j = "bisect ls k"
  have nn: "\<forall>n \<in> set ?ns. 0 \<le> n" by (auto simp: count_def)
  have k2: "k < sum_list ?ns" using k(2) count_Concat(2) [OF ex] by simp
  from bisect_accumulate [OF nn k(1) k2]
  have j: "?j < length ds" and lo: "sum_list (take ?j ?ns) \<le> k"
    and hi: "k < sum_list (take (Suc ?j) ?ns)"
    by (simp_all add: ls)
  have off: "os ! ?j = sum_list (take ?j ?ns)"
    using j unfolding os ls by (intro offsets_nth) simp
  have "length os = length ds"
    using j unfolding os ls by (simp add: length_accumulate)
  with j have g: "list_getitem os (int ?j) = Inr (sum_list (take ?j ?ns))"
    by (simp add: list_getitem_def off)
  have tk: "sum_list (take (Suc ?j) ?ns) = sum_list (take ?j ?ns) + count env (ds ! ?j)"
    using j by (simp add: take_Suc_conv_app_nth)
  let ?k' = "k - sum_list (take ?j ?ns)"
  have "0 \<le> ?k'" "?k' < count env (ds ! ?j)" using lo hi tk by simp_all
  with ih j
  have "fst (get_example env cache (ds ! ?j) ?k') = Inr (fst (iter env (ds ! ?j)) ! nat ?k')"
    by simp
  with j g have lhs: "fst (get_example env cache (ConcatDataset ds ls l os) k)
      = Inr (fst (iter env (ds ! ?j)) ! nat ?k')"
    by (simp add: Let_def)
  have cf: "count env = (\<lambda>d. int (length (fst (iter env d))))"
    by (simp add: fun_eq_iff count_def)
  have pre: "int (length (concat (take n ?xss))) = sum_list (take n ?ns)" for n
    by (simp add: int_length_concat take_map comp_def cf)
  have "concat ?xss ! nat k = (?xss ! ?j) ! nat (k - int (length (concat (take ?j ?xss))))"
    using j lo hi by (intro concat_nth_split) (simp_all add: pre)
  then have "concat ?xss ! nat k = fst (iter env (ds ! ?j)) ! nat ?k'"
    using j by (simp add: pre)
  with lhs show ?thesis
    unfolding count_Concat(1) [OF ex] by simp
qed

lemma text_access:
  assumes "list_all (\<lambda>p. readers_agree env p enc) ps" and "coherent env cache"
    and "0 \<le> k" and "k < count env (TextDataset ps enc l)"
  shows "fst (get_example env cache (TextDataset ps enc l) k)
         = Inr (fst (iter env (TextDataset ps enc l)) ! nat k)"
proof -
  define its where "its = map (\<lambda>p. (decoded env p enc, None :: error option)) ps"
  note it = iter_Text [OF assms(1), of l, folded its_def]
  have kz: "nat k < length (fst (zip_star its))"
    using assms(3,4) unfolding count_def it by simp
  have row: "fst (zip_star its) ! nat k = map (\<lambda>it. fst it ! nat k) its"
    using kz by (rule zip_star_nth)
  have "rstrip linesep (fresh_line env p (k + 1))
        = rstrip linesep (decoded env p enc ! nat k)" if p: "p \<in> set ps" for p
  proof -
    from p assms(1) have ra: "readers_agree env p enc"
      by (simp add: list_all_iff)
    have "(decoded env p enc, None) \<in> set its" using p by (force simp: its_def)
    then have "length (fst (zip_star its)) \<le> length (fst (decoded env p enc, None :: error option))"
      by (rule zip_star_le)
    with kz have "nat k < length (decoded env p enc)" by simp
    from fresh_line_decoded [OF ra assms(3) this] show ?thesis .
  qed
  then have "map (\<lambda>p. rstrip linesep (fresh_line env p (k + 1))) ps
      = map (rstrip linesep) (fst (zip_star its) ! nat k)"
    unfolding row by (simp add: its_def comp_def)
  then have "fst (get_example env cache (TextDataset ps enc l) k)
      = Inr (Tuple (map (rstrip linesep) (fst (zip_star its) ! nat k)))"
    using getline_all_coherent [OF assms(2), of ps "k + 1"]
    by (auto simp: comp_def split: prod.splits)
  then show ?thesis
    unfolding it using kz by simp
qed

lemma single_text_access:
  assumes "readers_agree env p enc" and "coherent env cache"
    and "0 \<le> k" and "k < count env (SingleTextDataset p enc l)"
  shows "fst (get_example env cache (SingleTextDataset p enc l) k)
         = Inr (fst (iter env (SingleTextDataset p enc l)) ! nat k)"
proof -
  have kz: "nat k < length (decoded env p enc)"
    using assms(3,4) by (simp add: count_SingleText [OF assms(1)] line_count_def)
  have "fst (get_example env cache (SingleTextDataset p enc l) k)
      = Inr (Str (rstrip linesep (fresh_line env p (k + 1))))"
    using getline_coherent(1) [OF assms(2), of p "k + 1"] by (auto split: prod.splits)
  with fresh_line_decoded [OF assms(1,3) kz] kz show ?thesis
    unfolding iter_SingleText [OF assms(1)] by simp
qed

lemma access_matches_iteration:
  fixes d :: "'a dataset" and s :: "'a source"
  shows "well_formed env d \<Longrightarrow>
      snd (iter env d) = None
      \<and> (\<forall>cache k. coherent env cache \<and> 0 \<le> k \<and> k < count env d \<longrightarrow>
            fst (get_example env cache d k) = Inr (fst (iter env d) ! nat k))"
    and "well_formed_source env s \<Longrightarrow>
      snd (source_iter env s) = None
      \<and> (\<forall>cache k. coherent env cache \<and> 0 \<le> k \<and> k < source_count env s \<longrightarrow>
            fst (source_getitem env cache s k) = Inr (fst (source_iter env s) ! nat k))"
proof (induction env d and env s rule: iter_source_iter.induct)
  case (1 env s l)
  then show ?case by (simp add: count_def source_count_def)
next
  case (2 env ds ls l os)
  from "2.prems" have wf: "\<forall>d \<in> set ds. well_formed env d"
    and ls: "ls = accumulate (map (count env) ds)" and os: "os = 0 # butlast ls"
    by (simp_all add: list_all_iff)
  from "2.IH" wf have ex: "\<forall>d \<in> set ds. snd (iter env d) = None"
    by blast
  have "snd (iter env (ConcatDataset ds ls l os)) = None"
    unfolding count_Concat(1) [OF ex] by simp
  moreover have "fst (get_example env cache (ConcatDataset ds ls l os) k)
         = Inr (fst (iter env (ConcatDataset ds ls l os)) ! nat k)"
    if "coherent env cache \<and> 0 \<le> k \<and> k < count env (ConcatDataset ds ls l os)" for cache k
  proof -
    from "2.IH" wf that
    have ih: "\<forall>d \<in> set ds. \<forall>k. 0 \<le> k \<and> k < count env d \<longrightarrow>
               fst (get_example env cache d k) = Inr (fst (iter env d) ! nat k)"
      by blast
    from concat_access [OF ex ih ls os] that show ?thesis by blast
  qed
  ultimately show ?case by blast
next
  case (3 env s fns l)
  from "3.prems" have wf: "well_formed_source env s" by simp
  note ih = "3.IH" [OF wf]
  from ih have ex: "snd (source_iter env s) = None" by blast
  then have it: "iter env (MapDataset s fns l)
      = (map (apply_map_funcs fns) (fst (source_iter env s)), None)"
    by (auto split: prod.splits)
  have "fst (get_example env cache (MapDataset s fns l) k)
         = Inr (fst (iter env (MapDataset s fns l)) ! nat k)"
    if "coherent env cache \<and> 0 \<le> k \<and> k < count env (MapDataset s fns l)" for cache k
  proof -
    from that have k: "0 \<le> k" "nat k < length (fst (source_iter env s))"
      unfolding count_def it by (auto simp: nat_less_iff)
    with ih that have "fst (source_getitem env cache s k) = Inr (fst (source_iter env s) ! nat k)"
      by (simp add: source_count_def)
    then obtain c' where "source_getitem env cache s k = (Inr (fst (source_iter env s) ! nat k), c')"
      by (cases "source_getitem env cache s k") simp
    then show ?thesis
      unfolding it using k by simp
  qed
  with it show ?case by simp
next
  case (4 env s fns c l)
  then show ?case by (simp add: count_def list_getitem_def)
next
  case (5 env p enc l)
  from "5.prems" have f: "readers_agree env p enc" by simp
  have "snd (iter env (SingleTextDataset p enc l)) = None"
    unfolding iter_SingleText [OF f] by simp
  with single_text_access [OF f] show ?case by blast
next
  case (6 env ps enc l)
  from "6.prems" have f: "list_all (\<lambda>p. readers_agree env p enc) ps" by simp
  have "snd (iter env (TextDataset ps enc l)) = None"
    unfolding iter_Text [OF f] by simp
  with text_access [OF f] show ?case by blast
next
  case (7 env xs)
  then show ?case by (simp add: source_count_def list_getitem_def)
next
  case (8 env d)
  then show ?case by (simp add: source_count_def count_def)
qed

lemma count_lines_line_count:
  "readers_agree env p enc \<Longrightarrow> count_lines env p enc = Inr n \<Longrightarrow>
     n = int (line_count env p enc)"
  using readers_agree_file(3) [of env p enc]
  by (auto simp: line_count_def split: if_splits)

lemma count_simple:
  "count env (Dataset s l) = source_count env s"
  "count env (MapDataset s fns l) = source_count env s"
  "count env (CacheDataset s fns c l) = int (length c)"
  "source_count env (Raw xs) = int (length xs)"
  "source_count env (Node d) = count env d"
  by (simp_all add: count_def source_count_def split: prod.splits)

lemma cached_is_count:
  assumes "well_formed env d" and "f_length d = Some m"
  shows "m = count env d"
proof (cases d)
  case (ConcatDataset ds ls l os)
  with assms have wf: "\<forall>d \<in> set ds. well_formed env d" and ne: "ds \<noteq> []"
    and m: "m = last (accumulate (map (count env) ds))"
    by (simp_all add: list_all_iff)
  from wf have "\<forall>d \<in> set ds. snd (iter env d) = None"
    using access_matches_iteration(1) by blast
  then have "count env d = sum_list (map (count env) ds)"
    unfolding ConcatDataset by (rule count_Concat(2))
  with m ne show ?thesis by (simp add: last_accumulate)
next
  case (SingleTextDataset p enc l)
  with assms show ?thesis by (simp add: count_SingleText)
next
  case (TextDataset ps enc l)
  with assms show ?thesis by (simp add: count_Text)
qed (use assms in \<open>simp_all add: count_simple\<close>)

lemma len_is_count:
  fixes d d1 d2 :: "'a dataset" and s :: "'a source"
  shows "well_formed env d \<Longrightarrow> Dataset_len env d = Inr (n, d') \<Longrightarrow> n = count env d"
    and "well_formed env d1 \<Longrightarrow> len env d1 = Inr (n1, d1') \<Longrightarrow> n1 = count env d1"
    and "well_formed env d2 \<Longrightarrow> get_length env d2 = Inr (n2, d2') \<Longrightarrow> n2 = count env d2"
    and "well_formed_source env s \<Longrightarrow> source_len env s = Inr (n3, s') \<Longrightarrow>
           n3 = source_count env s"
proof (induction env d and env d1 and env d2 and env s
    arbitrary: n d' and n1 d1' and n2 d2' and n3 s'
    rule: Dataset_len_len_get_length_source_len.induct)
  case (1 env self)
  show ?case
  proof (cases "f_length self")
    case None
    with "1.prems"(2) obtain self' where "get_length env self = Inr (n, self')"
      by (auto simp: Dataset_len.simps split: sum.splits)
    with "1.IH" [OF None "1.prems"(1)] show ?thesis .
  next
    case (Some m)
    with "1.prems"(2) have "m = n" by (simp add: Dataset_len.simps)
    with cached_is_count [OF "1.prems"(1) Some] show ?thesis by simp
  qed
next
  case (2 env d)
  from "2.prems"(2) obtain d'' where "Dataset_len env d = Inr (n1, d'')"
    by (auto simp: len.simps split: sum.splits if_splits)
  with "2.IH" [OF "2.prems"(1)] show ?case .
next
  case (7 env p enc l)
  then show ?case
    by (auto simp: count_SingleText dest: count_lines_line_count split: sum.splits)
next
  case (8 env ps enc l)
  from "8.prems"(2) obtain p where p: "list_getitem ps 0 = Inr p"
    and c: "count_lines env p enc = Inr n2"
    by (auto split: sum.splits)
  from p have ne: "ps \<noteq> []" and hd: "p = hd ps"
    by (auto simp: list_getitem_def hd_conv_nth split: if_splits)
  from "8.prems"(1) ne hd have "readers_agree env p enc"
    by (cases ps) simp_all
  from count_lines_line_count [OF this c] "8.prems"(1) ne hd show ?case
    by (simp add: count_Text)
qed (auto simp: count_simple split: sum.splits)

subsection \<open>Function lists of mapped nodes\<close>

lemma apply_map_funcs_append:
  "apply_map_funcs (fns @ gns) x = apply_map_funcs gns (apply_map_funcs fns x)"
  by (induction fns arbitrary: x) simp_all

lemma map_ds_list:
  "f_map_func_list (map_ds u f)
   = (if isinstance_MapDataset (Node u) then f_map_func_list u @ [f] else [f])"
  by (cases u) (simp_all add: map_ds_def MapDataset_init_def Dataset_init_self_def)

lemma map_ds_get_example:
  "get_example env cache (map_ds u f) i =
     (case source_getitem env cache (attr_dataset u) i of
        (Inl e, cache') \<Rightarrow> (Inl e, cache')
      | (Inr x, cache') \<Rightarrow> (Inr (apply_map_funcs (f_map_func_list (map_ds u f)) x), cache'))"
  by (cases u)
     (auto simp: map_ds_def MapDataset_init_def Dataset_init_self_def Let_def
        split: sum.splits prod.splits)

lemma attr_dataset_map_ds: "attr_dataset (map_ds u f) = attr_dataset u"
  by (cases u) (simp_all add: map_ds_def MapDataset_init_def Dataset_init_self_def)

lemma isinstance_map_ds: "isinstance_MapDataset (Node (map_ds u f))"
  by (cases u) (simp_all add: map_ds_def MapDataset_init_def Dataset_init_self_def)

lemma fst_map_get_example:
  "fst (case r of (Inl e, cache') \<Rightarrow> (Inl e, cache')
               | (Inr x, cache') \<Rightarrow> (Inr (h x), cache'))
   = (case fst r of Inl e \<Rightarrow> Inl e | Inr x \<Rightarrow> Inr (h x))"
  "snd (case r of (Inl e, cache') \<Rightarrow> (Inl e, cache')
               | (Inr x, cache') \<Rightarrow> (Inr (h x), cache')) = snd r"
  by (auto split: prod.splits sum.splits)

lemma get_example_by_source:
  assumes "snapshot_agrees env cache u i"
  shows "fst (get_example env cache u i) =
     (case fst (source_getitem env cache (attr_dataset u) i) of
        Inl e \<Rightarrow> Inl e
      | Inr x \<Rightarrow>
          Inr (apply_map_funcs (if isinstance_MapDataset (Node u) then f_map_func_list u else []) x))"
  using assms by (cases u) (auto simp: Let_def split: sum.splits prod.splits)

lemma store_copy:
  assumes "r < length st"
  shows "case MapDataset_init_list st (Some r) g of
           (st', r') \<Rightarrow> st' ! r = st ! r \<and> st' ! r' = st ! r @ [g] \<and> r' \<noteq> r
              \<and> take (length st) st' = st"
  using assms
  by (simp add: MapDataset_init_list_def deepcopy_def list_append_def nth_append)

subsection \<open>The constructors build well-formed nodes\<close>

lemma well_formed_attr_dataset:
  "well_formed env d \<Longrightarrow> well_formed_source env (attr_dataset d)"
  by (cases d) simp_all

lemma well_formed_init_dataset:
  "well_formed_source env a \<Longrightarrow> well_formed_source env (init_dataset a)"
  by (cases a) (simp_all add: well_formed_attr_dataset)

lemma well_formed_Dataset_init:
  "well_formed_source env a \<Longrightarrow> well_formed env (Dataset_init a)"
  by (simp add: Dataset_init_def Dataset_init_self_def well_formed_init_dataset)

lemma well_formed_MapDataset_init:
  "well_formed_source env a \<Longrightarrow> well_formed env (MapDataset_init a f)"
  by (simp add: MapDataset_init_def Dataset_init_self_def well_formed_init_dataset Let_def)

lemma well_formed_text_init:
  "SingleTextDataset_init env p enc = Inr d \<Longrightarrow> readers_agree env p enc \<Longrightarrow> well_formed env d"
  "TextDataset_init env (ManyPaths ps) enc = Inr d \<Longrightarrow>
     list_all (\<lambda>p. readers_agree env p enc) ps \<Longrightarrow> aligned env ps enc \<Longrightarrow> well_formed env d"
  by (auto simp: SingleTextDataset_init_def split: if_splits)

lemma count_len:
  "len env0 d = Inr (n, d') \<Longrightarrow> count env d' = count env d"
  by (simp add: count_def iter_len)

lemma source_count_len:
  "source_len env0 s = Inr (n, s') \<Longrightarrow> source_count env s' = source_count env s"
  by (metis erase_len(4) iter_erase(2) source_count_def)

lemma well_formed_set_length:
  "well_formed env d \<Longrightarrow> \<not> is_ConcatDataset d \<Longrightarrow> n = count env d
   \<Longrightarrow> well_formed env (set_length (Some n) d)"
  by (cases d) (auto simp: count_simple count_SingleText count_Text)

lemma well_formed_len:
  fixes d d1 d2 :: "'a dataset" and s :: "'a source"
  shows "well_formed env d \<Longrightarrow> Dataset_len env d = Inr (n, d') \<Longrightarrow> well_formed env d'"
    and "well_formed env d1 \<Longrightarrow> len env d1 = Inr (n1, d1') \<Longrightarrow> well_formed env d1'"
    and "well_formed env d2 \<Longrightarrow> get_length env d2 = Inr (n2, d2') \<Longrightarrow> well_formed env d2'"
    and "well_formed_source env s \<Longrightarrow> source_len env s = Inr (n3, s') \<Longrightarrow>
           well_formed_source env s'"
proof (induction env d and env d1 and env d2 and env s
    arbitrary: n d' and n1 d1' and n2 d2' and n3 s'
    rule: Dataset_len_len_get_length_source_len.induct)
  case (1 env self)
  show ?case
  proof (cases "f_length self")
    case None
    with "1.prems"(2) obtain self' where g: "get_length env self = Inr (n, self')"
      and d': "d' = set_length (Some n) self'"
      by (auto simp: Dataset_len.simps split: sum.splits)
    have wf: "well_formed env self'"
      using "1.IH" [OF None "1.prems"(1) g] .
    have "n = count env self"
      using "1.prems"(1) g by (rule len_is_count(3))
    moreover have "count env self' = count env self"
      using erase_len(3) [OF g] by (metis count_def iter_erase(1))
    ultimately show ?thesis
      unfolding d' using wf get_length_not_concat [OF g] by (intro well_formed_set_length) simp_all
  next
    case (Some m)
    with "1.prems" show ?thesis by (simp add: Dataset_len.simps)
  qed
next
  case (2 env d)
  from "2.prems"(2) have "Dataset_len env d = Inr (n1, d1')"
    by (auto simp: len.simps split: sum.splits if_splits)
  with "2.IH" [OF "2.prems"(1)] show ?case .
next
  case (3 env s l)
  then show ?case
    by (auto simp: source_count_len split: sum.splits)
next
  case (4 env s fns l)
  then show ?case
    by (auto simp: source_count_len split: sum.splits)
next
  case (5 env s fns c l)
  then show ?case
    by (auto simp: source_count_len split: sum.splits)
qed (auto split: sum.splits)

lemma len_all_well_formed:
  assumes "list_all (well_formed env) ds" and "len_all env ds = Inr (ns, ds')"
  shows "list_all (well_formed env) ds' \<and> ns = map (count env) ds' \<and> length ds' = length ds"
  using assms
proof (induction ds arbitrary: ns ds')
  case Nil
  then show ?case by simp
next
  case (Cons d ds)
  from Cons.prems(2) obtain n d1 ms ds1 where l: "len env d = Inr (n, d1)"
    and r: "len_all env ds = Inr (ms, ds1)" and e: "ns = n # ms" "ds' = d1 # ds1"
    by (auto split: sum.splits)
  from Cons.prems(1) have wd: "well_formed env d" and wds: "list_all (well_formed env) ds"
    by simp_all
  have "well_formed env d1" using wd l by (rule well_formed_len(2))
  moreover have "n = count env d1"
    using len_is_count(2) [OF wd l] count_len [OF l] by simp
  ultimately show ?case
    using Cons.IH [OF wds r] e by simp
qed

lemma the_datasets_well_formed:
  "list_all (well_formed_source env) args \<Longrightarrow> list_all (well_formed env) (the_datasets args)"
  by (induction args rule: the_datasets.induct) simp_all

lemma list_getitem_last:
  "list_getitem xs (- 1) = (if xs = [] then Inl IndexError else Inr (last xs))"
proof (cases "xs = []")
  case True
  then show ?thesis by (simp add: list_getitem_def)
next
  case False
  then have "nat (int (length xs) - 1) = length xs - 1" by simp
  with False show ?thesis
    by (simp add: list_getitem_def last_conv_nth)
qed

lemma well_formed_ConcatDataset_init:
  assumes "list_all (well_formed_source env) args" and "ConcatDataset_init env args = Inr c"
  shows "well_formed env c"
proof -
  from assms(2) obtain ns ds where l: "len_all env (the_datasets args) = Inr (ns, ds)"
    and ne: "accumulate ns \<noteq> []"
    and c: "c = ConcatDataset ds (accumulate ns) (Some (last (accumulate ns)))
                  (0 # butlast (accumulate ns))"
    by (auto simp: ConcatDataset_init_def Let_def list_getitem_last
        split: sum.splits if_splits)
  from len_all_well_formed [OF the_datasets_well_formed [OF assms(1)] l]
  have w: "list_all (well_formed env) ds" and n: "ns = map (count env) ds"
    by simp_all
  from ne n have "ds \<noteq> []" by auto
  with w n c show ?thesis by simp
qed

lemma all_ds_result:
  assumes "all_ds env d = Inr (xs, d')"
  shows "\<exists>n. len env d = Inr (n, d')" and "iter env d = (xs, None)" and "iter env' d' = iter env' d"
proof -
  from assms obtain n where l: "len env d = Inr (n, d')" and i: "iter env d' = (xs, None)"
    by (auto simp: all_ds_def split: sum.splits prod.splits option.splits)
  from l show "\<exists>n. len env d = Inr (n, d')" ..
  from l show "iter env' d' = iter env' d" by (rule iter_len)
  from i iter_len [OF l, of env] show "iter env d = (xs, None)" by simp
qed

lemma save_result:
  assumes "save dump env d filename = Inr (env', d', c)"
  shows "all_ds env d = Inr (fst (iter env d), d')"
    and "c = CacheDataset_init (Node d') (fst (iter env d))"
    and "env' = env\<lparr>files := (files env)(filename \<mapsto> dump (fst (iter env d)))\<rparr>"
proof -
  from assms obtain xs where a: "all_ds env d = Inr (xs, d')"
    and c: "c = CacheDataset_init (Node d') xs"
    and e: "env' = env\<lparr>files := (files env)(filename \<mapsto> dump xs)\<rparr>"
    by (auto simp: save_def split: sum.splits)
  from all_ds_result(2) [OF a] have "xs = fst (iter env d)" by simp
  with a c e show "all_ds env d = Inr (fst (iter env d), d')"
    and "c = CacheDataset_init (Node d') (fst (iter env d))"
    and "env' = env\<lparr>files := (files env)(filename \<mapsto> dump (fst (iter env d)))\<rparr>"
    by simp_all
qed

lemma well_formed_save:
  assumes "well_formed env d" and "save dump env d filename = Inr (env', d', c)"
  shows "well_formed env d'" and "well_formed env c"
proof -
  note a = save_result(1) [OF assms(2)] and c = save_result(2) [OF assms(2)]
  from all_ds_result(1) [OF a] obtain n where l: "len env d = Inr (n, d')" ..
  show wf: "well_formed env d'"
    using assms(1) l by (rule well_formed_len(2))
  have "int (length (fst (iter env d'))) = source_count env (attr_dataset d')"
    using wf by (cases d') (simp_all add: count_def source_count_def split: prod.splits)
  then have "int (length (fst (iter env d))) = source_count env (attr_dataset d')"
    by (simp add: iter_len [OF l])
  then show "well_formed env c"
    unfolding c using wf
    by (simp add: CacheDataset_init_def Dataset_init_self_def well_formed_attr_dataset)
qed

lemma snapshot_agrees_erase:
  "snapshot_agrees env cache (erase d) i = snapshot_agrees env cache d i"
  by (cases d) (simp_all add: get_example_erase(2))

lemma snapshot_agrees_len:
  "len env0 d = Inr (n, d') \<Longrightarrow> snapshot_agrees env cache d' i = snapshot_agrees env cache d i"
  by (metis erase_len(2) snapshot_agrees_erase)

lemma save_snapshot_agrees:
  assumes "well_formed env d" and "coherent env cache" and "snapshot_agrees env cache d i"
    and "0 \<le> i" and "i < count env d"
    and "save dump env d filename = Inr (env', d', c)"
  shows "snapshot_agrees env cache c i"
proof -
  note a = save_result(1) [OF assms(6)] and c = save_result(2) [OF assms(6)]
  from all_ds_result(1) [OF a] obtain n where l: "len env d = Inr (n, d')" ..
  define xs where "xs = fst (iter env d)"
  have "list_getitem xs i = Inr (xs ! nat i)"
    using assms(4,5) by (simp add: list_getitem_def xs_def count_def)
  also have "\<dots> = fst (get_example env cache d i)"
    using access_matches_iteration(1) [OF assms(1)] assms(2,4,5) xs_def by simp
  also have "\<dots> = fst (get_example env cache d' i)"
    by (simp add: get_example_len [OF l])
  finally have g: "list_getitem xs i = fst (get_example env cache d' i)" .
  have sa: "snapshot_agrees env cache d' i"
    using assms(3) snapshot_agrees_len [OF l] by simp
  show ?thesis
    unfolding c xs_def [symmetric] using g get_example_by_source [OF sa]
    by (cases d') (auto simp: CacheDataset_init_def Dataset_init_self_def split: sum.splits)
qed

subsection \<open>Slices\<close>

lemma get_examples_comprehension:
  "get_examples env cache S is
   = comprehension (\<lambda>cache' i. get_example env cache' S i) cache is"
  by (induction "is" arbitrary: cache) (auto split: sum.splits prod.splits)

lemma get_examples_len:
  "len env0 S = Inr (n, S') \<Longrightarrow> get_examples env cache S' is = get_examples env cache S is"
  by (simp add: get_examples_comprehension get_example_len)

lemma py_range_bounds:
  "x \<in> set (py_range a b c) \<Longrightarrow> (0 < c \<longrightarrow> a \<le> x \<and> x < b) \<and> (c < 0 \<longrightarrow> b < x \<and> x \<le> a)"
proof (induction a b c rule: py_range.induct)
  case (1 start stop step)
  show ?case
  proof (cases "(0 < step \<and> start < stop) \<or> (step < 0 \<and> stop < start)")
    case True
    with "1.prems" have "x = start \<or> x \<in> set (py_range (start + step) stop step)"
      by (simp add: py_range.simps [of start stop step])
    with "1.IH" [OF True] True show ?thesis by auto
  next
    case False
    with "1.prems" show ?thesis
      by (simp add: py_range.simps [of start stop step])
  qed
qed

lemma slice_indices_bounds:
  assumes "slice_indices start stop step n = Inr (a, b, c)" and "0 \<le> n"
  shows "c \<noteq> 0 \<and> (0 < c \<longrightarrow> 0 \<le> a \<and> b \<le> n) \<and> (c < 0 \<longrightarrow> a \<le> n - 1 \<and> - 1 \<le> b)"
  using assms
  by (auto simp: slice_indices_def Let_def split: option.splits if_splits)

lemma slice_range_valid:
  assumes "slice_indices start stop step n = Inr (a, b, c)" and "0 \<le> n"
  shows "list_all (\<lambda>i. 0 \<le> i \<and> i < n) (py_range a b c)"
proof -
  from slice_indices_bounds [OF assms]
  have c: "c \<noteq> 0" and up: "0 < c \<longrightarrow> 0 \<le> a \<and> b \<le> n" and down: "c < 0 \<longrightarrow> a \<le> n - 1 \<and> - 1 \<le> b"
    by simp_all
  have "0 \<le> x \<and> x < n" if "x \<in> set (py_range a b c)" for x
    using py_range_bounds [OF that] c up down by (cases "0 < c") auto
  then show ?thesis by (simp add: list_all_iff)
qed

subsection \<open>Opened files\<close>

lemma open_text_lines:
  assumes "open_text env p enc = Inr f" and "line \<in> set (fst f)"
  shows "\<exists>t. line \<in> set (text_lines t)"
  using assms
  by (auto simp: open_text_def split: option.splits if_splits prod.splits)

lemma open_text_file:
  assumes "open_text env p enc = Inr f"
  shows "\<exists>b. files env p = Some b \<and> codec_known env enc
           \<and> snd f = snd (decode env enc b)
           \<and> (snd f = None \<longrightarrow> fst f = text_lines (fst (decode env enc b)))"
  using assms
  by (auto simp: open_text_def split: option.splits if_splits prod.splits)

lemma open_all_result:
  "open_all env ps enc = Inr fps \<Longrightarrow> list_all2 (\<lambda>p f. open_text env p enc = Inr f) ps fps"
  by (induction ps arbitrary: fps) (auto split: sum.splits)

subsection \<open>Indices outside a concatenation\<close>







subsection \<open>Lines outside a text file\<close>





section \<open>Indexed access and iteration\<close>

text \<open>
  C1, as the code has it. Four ways in which a valid index does not give the element the
  iteration has at that position.
  \<^item> A multi-file text dataset takes its length from its first file and iterates until
    the shortest file ends: over \<open>b.txt\<close> (three lines) and \<open>short.txt\<close> (one line) the
    length is 3, \<open>get_example\<close> returns a tuple at index 1, and the iteration yields a
    single element.
  \<^item> \<open>get_example\<close> reads through \<open>linecache\<close>, which does not use the dataset's encoding:
    over the Latin-1 file \<open>latin.txt\<close> the length is 1, the iteration yields the one line,
    and \<open>get_example\<close> at 0 is the empty string.
  \<^item> The length counts line feed bytes while the iteration reads with universal newlines:
    \<open>cr.txt\<close> has length 2 and three elements, so in its concatenation with \<open>a.txt\<close>,
    of length 4, index 2 is the first line of \<open>a.txt\<close> and the iteration has the third
    line of \<open>cr.txt\<close> there.
  \<^item> \<open>linecache\<close> never refreshes the lines it holds: with a line cache that holds an older
    content of \<open>a.txt\<close>, \<open>get_example\<close> at 0 returns the old line.
\<close>

theorem misaligned_files_counterexample:
  "map_sum id fst (len example_env example_misaligned) = Inr 3
   \<and> iter example_env example_misaligned = ([Tuple [ascii ''x'', ascii ''p'']], None)
   \<and> fst (get_example example_env Map.empty example_misaligned 1)
       = Inr (Tuple [ascii ''y'', ascii ''''])
   \<and> map_sum id fst (len example_env example_latin) = Inr 1
   \<and> iter example_env example_latin = ([Str [233]], None)
   \<and> fst (get_example example_env Map.empty example_latin 0) = Inr (Str [])
   \<and> (case ConcatDataset_init example_env [Node example_cr, Node example_text_a] of
         Inl e \<Rightarrow> False
       | Inr c \<Rightarrow>
           map_sum id fst (len example_env c) = Inr 4
           \<and> fst (get_example example_env Map.empty c 2) = Inr (Str (ascii ''a''))
           \<and> fst (iter example_env c) ! 2 = Str (ascii ''c'')
           \<and> snd (iter example_env c) = None)
   \<and> map_sum id fst (len example_env example_text_a) = Inr 2
   \<and> fst (get_example example_env [''a.txt'' \<mapsto> [ascii ''q'' @ [LF]]] example_text_a 0)
       = Inr (Str (ascii ''q''))
   \<and> fst (iter example_env example_text_a) ! 0 = Str (ascii ''a'')"
  by code_simp

text \<open>
  C1, amended. For every well-formed node (built by the constructors over text files on
  which text mode with the dataset's encoding, \<open>linecache\<close> and the count of line feed bytes
  agree, the files of each multi-file text dataset aligned, the snapshot of each cache of
  the size of its upstream), every line cache that is coherent with the files, and every
  index \<open>i\<close> with \<open>0 \<le> i < len\<close>: the iteration ends normally after exactly \<open>len\<close>
  elements and \<open>get_example\<close> at \<open>i\<close> is its element at position \<open>i\<close>.
\<close>

theorem get_equals_iterate:
  assumes "well_formed env d" and "coherent env cache"
    and "len env d = Inr (n, d')" and "0 \<le> i" and "i < n"
  shows "\<exists>xs. iter env d = (xs, None) \<and> int (length xs) = n
           \<and> fst (get_example env cache d i) = Inr (xs ! nat i)"
proof -
  have n: "n = count env d"
    using assms(1,3) by (rule len_is_count(2))
  from access_matches_iteration(1) [OF assms(1)] assms(2,4,5) n
  have "snd (iter env d) = None"
    and "fst (get_example env cache d i) = Inr (fst (iter env d) ! nat i)"
    by simp_all
  with n show ?thesis
    by (cases "iter env d") (simp add: count_def)
qed

theorem get_equals_iterate_witness:
  "well_formed example_env example_concat
   \<and> coherent example_env Map.empty
   \<and> map_sum id fst (len example_env example_concat) = Inr 5
   \<and> fst (get_example example_env Map.empty example_concat 3)
       = Inr (fst (iter example_env example_concat) ! nat 3)
   \<and> fst (get_example example_env Map.empty example_concat 3)
       = Inr (Tuple [ascii ''y'', ascii ''2''])"
proof -
  have wf: "well_formed example_env example_concat"
    by code_simp
  have co: "coherent example_env Map.empty"
    by (simp add: coherent_def)
  have l: "map_sum id fst (len example_env example_concat) = Inr 5"
    by code_simp
  then obtain d' where "len example_env example_concat = Inr (5, d')"
    by (cases "len example_env example_concat") auto
  from get_equals_iterate [OF wf co this, of 3]
  have g: "fst (get_example example_env Map.empty example_concat 3)
       = Inr (fst (iter example_env example_concat) ! nat 3)"
    by auto
  have v: "fst (get_example example_env Map.empty example_concat 3)
       = Inr (Tuple [ascii ''y'', ascii ''2''])"
    by code_simp
  from wf co l g v show ?thesis by simp
qed

section \<open>Two successive maps\<close>

text \<open>
  C2, as the code has it. A MapDataset over a CacheDataset takes the cache's \<open>_dataset\<close>,
  the raw upstream, and not its snapshot. For the cache built from the upstream \<open>[1]\<close> and
  the snapshot \<open>[5]\<close>, index 0 is valid and \<open>get_example\<close> is 5, so \<open>g(f(u.get(0)))\<close> is 12 for
  \<open>f = increment\<close> and \<open>g = double\<close>, while \<open>u.map(f).map(g)\<close> returns 4 at 0, computed
  from the upstream element 1.
\<close>

theorem stale_cache_counterexample:
  "map_sum id fst (len no_files example_stale_cache) = Inr 1
   \<and> fst (get_example no_files Map.empty example_stale_cache 0) = Inr (Obj 5)
   \<and> double (increment (Obj 5)) = Obj 12
   \<and> fst (get_example no_files Map.empty
            (map_ds (map_ds example_stale_cache increment) double) 0) = Inr (Obj 4)"
  by (simp add: example_stale_cache_def CacheDataset_init_def Dataset_init_def
      Dataset_init_self_def map_ds_def MapDataset_init_def len.simps Dataset_len.simps
      list_getitem_def double_def increment_def)

text \<open>
  C2, amended. For every upstream \<open>u\<close> that is not a CacheDataset, and for a CacheDataset
  whose snapshot agrees with its upstream at \<open>i\<close>: \<open>u.map(f).map(g)\<close> returns \<open>g(f(x))\<close> at
  \<open>i\<close> where \<open>u\<close> returns \<open>x\<close>, and raises where \<open>u\<close> raises; the result, and the line cache
  the access leaves, are those of the single step \<open>u.map(\<lambda>x. g(f x))\<close>; when \<open>u\<close> is not a
  CacheDataset the line cache is also left as \<open>u\<close>'s own access leaves it; the two steps
  flatten into one function list, the list of \<open>u.map(f)\<close> with \<open>g\<close> appended; and at the
  level of list objects \<open>g\<close> is appended to a fresh copy, the list object of \<open>u.map(f)\<close>
  and every other list object of the store staying as they were.
\<close>

theorem map_twice:
  assumes "snapshot_agrees env cache u i"
  shows "fst (get_example env cache (map_ds (map_ds u f) g) i)
         = (case fst (get_example env cache u i) of Inl e \<Rightarrow> Inl e | Inr x \<Rightarrow> Inr (g (f x)))
    \<and> get_example env cache (map_ds (map_ds u f) g) i
        = get_example env cache (map_ds u (\<lambda>x. g (f x))) i
    \<and> (\<not> is_CacheDataset u \<longrightarrow>
          snd (get_example env cache (map_ds (map_ds u f) g) i)
          = snd (get_example env cache u i))
    \<and> f_map_func_list (map_ds (map_ds u f) g) = f_map_func_list (map_ds u f) @ [g]
    \<and> f_map_func_list (map_ds u f)
        = (if isinstance_MapDataset (Node u) then f_map_func_list u @ [f] else [f])
    \<and> (r < length st \<and> st ! r = f_map_func_list (map_ds u f) \<longrightarrow>
         (case MapDataset_init_list st (Some r) g of
            (st', r') \<Rightarrow> st' ! r' = f_map_func_list (map_ds (map_ds u f) g)
               \<and> st' ! r = f_map_func_list (map_ds u f) \<and> r' \<noteq> r
               \<and> take (length st) st' = st))"
proof -
  have l2: "f_map_func_list (map_ds (map_ds u f) g) = f_map_func_list (map_ds u f) @ [g]"
    by (simp add: map_ds_list [of "map_ds u f"] isinstance_map_ds)
  have two: "fst (get_example env cache (map_ds (map_ds u f) g) i)
         = (case fst (get_example env cache u i) of Inl e \<Rightarrow> Inl e | Inr x \<Rightarrow> Inr (g (f x)))"
    unfolding get_example_by_source [OF assms] map_ds_get_example [of env cache "map_ds u f"]
      l2 fst_map_get_example
    by (simp add: attr_dataset_map_ds map_ds_list apply_map_funcs_append split: sum.splits)
  have one: "get_example env cache (map_ds (map_ds u f) g) i
        = get_example env cache (map_ds u (\<lambda>x. g (f x))) i"
    unfolding map_ds_get_example [of env cache "map_ds u f"] map_ds_get_example [of env cache u]
      l2
    by (simp add: attr_dataset_map_ds map_ds_list apply_map_funcs_append
        split: sum.splits prod.splits)
  have lc: "snd (get_example env cache (map_ds (map_ds u f) g) i)
          = snd (get_example env cache u i)" if "\<not> is_CacheDataset u"
    unfolding map_ds_get_example [of env cache "map_ds u f"] fst_map_get_example
      attr_dataset_map_ds
    using that by (cases u) (simp_all add: fst_map_get_example Let_def)
  have st: "case MapDataset_init_list st (Some r) g of
            (st', r') \<Rightarrow> st' ! r' = f_map_func_list (map_ds (map_ds u f) g)
               \<and> st' ! r = f_map_func_list (map_ds u f) \<and> r' \<noteq> r
               \<and> take (length st) st' = st"
    if "r < length st \<and> st ! r = f_map_func_list (map_ds u f)"
    using store_copy [of r st g] that l2 by (auto split: prod.splits)
  from two one lc l2 map_ds_list [of u f] st show ?thesis by simp
qed

theorem map_twice_witness:
  "snapshot_agrees no_files Map.empty example_cache 0
   \<and> fst (get_example no_files Map.empty example_cache 0) = Inr (Obj 6)
   \<and> fst (get_example no_files Map.empty (map_ds (map_ds example_cache increment) double) 0)
       = Inr (Obj 14)
   \<and> f_map_func_list (map_ds (map_ds example_cache increment) double)
       = [double, increment, double]
   \<and> snd (get_example example_env Map.empty
            (map_ds (map_ds example_text_a increment) double) 0)
       = snd (get_example example_env Map.empty example_text_a 0)"
proof -
  have a: "snapshot_agrees no_files Map.empty example_cache 0"
    by (simp add: example_cache_def CacheDataset_init_def Dataset_init_self_def
        list_getitem_def double_def)
  have g: "fst (get_example no_files Map.empty example_cache 0) = Inr (Obj 6)"
    by (simp add: example_cache_def CacheDataset_init_def Dataset_init_self_def
        list_getitem_def)
  have i: "isinstance_MapDataset (Node example_cache)"
    and l: "f_map_func_list example_cache = [double]"
    by (simp_all add: example_cache_def CacheDataset_init_def Dataset_init_self_def)
  have b: "snapshot_agrees example_env Map.empty example_text_a 0"
    and n: "\<not> is_CacheDataset example_text_a"
    by (simp_all add: example_text_a_def)
  from map_twice [OF b, of increment double 0 "[]"] n
  have s: "snd (get_example example_env Map.empty
            (map_ds (map_ds example_text_a increment) double) 0)
       = snd (get_example example_env Map.empty example_text_a 0)"
    by blast
  from map_twice [OF a, of increment double 0 "[]"]
  have v: "fst (get_example no_files Map.empty
              (map_ds (map_ds example_cache increment) double) 0)
         = (case fst (get_example no_files Map.empty example_cache 0) of
              Inl e \<Rightarrow> Inl e | Inr x \<Rightarrow> Inr (double (increment x)))"
    and l2: "f_map_func_list (map_ds (map_ds example_cache increment) double)
         = f_map_func_list (map_ds example_cache increment) @ [double]"
    and l1: "f_map_func_list (map_ds example_cache increment)
        = (if isinstance_MapDataset (Node example_cache)
           then f_map_func_list example_cache @ [increment] else [increment])"
    by blast+
  have "fst (get_example no_files Map.empty
              (map_ds (map_ds example_cache increment) double) 0) = Inr (Obj 14)"
    unfolding v g by (simp add: double_def increment_def)
  moreover have "f_map_func_list (map_ds (map_ds example_cache increment) double)
       = [double, increment, double]"
    unfolding l2 l1 using i l by simp
  ultimately show ?thesis
    using a g s by (intro conjI)
qed

section \<open>Concatenation of two datasets\<close>

text \<open>
  C3. When the ConcatDataset of \<open>S1\<close> and \<open>S2\<close> is built, both lengths were taken, its
  length is their sum, its tables are \<open>[n1, n1 + n2]\<close> and \<open>[0, n1]\<close>; for every \<open>i < n1\<close>
  the binary search selects child 0 and \<open>get_example\<close> is that of \<open>S1\<close> at \<open>i\<close>, and for
  every \<open>i\<close> with \<open>n1 \<le> i < n1 + n2\<close> it selects child 1 and \<open>get_example\<close> is that of
  \<open>S2\<close> at \<open>i - n1\<close>, in every later environment and with every line cache.
\<close>

theorem concat_of_two:
  assumes "ConcatDataset_init env [Node S1, Node S2] = Inr c"
  shows "\<exists>n1 n2 S1' S2'.
      len env S1 = Inr (n1, S1') \<and> len env S2 = Inr (n2, S2')
    \<and> Dataset_len env' c = Inr (n1 + n2, c)
    \<and> f_lengths c = [n1, n1 + n2] \<and> f_offsets c = [0, n1]
    \<and> (\<forall>i cache. i < n1 \<longrightarrow>
          bisect (f_lengths c) i = 0
          \<and> get_example env' cache c i = get_example env' cache S1 i)
    \<and> (\<forall>i cache. n1 \<le> i \<and> i < n1 + n2 \<longrightarrow>
          bisect (f_lengths c) i = 1
          \<and> get_example env' cache c i = get_example env' cache S2 (i - n1))"
proof -
  from assms obtain n1 S1' n2 S2' where l1: "len env S1 = Inr (n1, S1')"
    and l2: "len env S2 = Inr (n2, S2')"
    and c: "c = ConcatDataset [S1', S2'] [n1, n1 + n2] (Some (n1 + n2)) [0, n1]"
    by (auto simp: ConcatDataset_init_def list_getitem_def split: sum.splits)
  have n2: "0 \<le> n2" using l2 by (rule len_nonneg)
  have e1: "get_example env' cache S1' i = get_example env' cache S1 i" for i cache
    using l1 by (rule get_example_len)
  have e2: "get_example env' cache S2' i = get_example env' cache S2 i" for i cache
    using l2 by (rule get_example_len)
  have lo: "bisect (f_lengths c) i = 0
      \<and> get_example env' cache c i = get_example env' cache S1 i"
    if "i < n1" for i cache
    using that n2 c e1 by (simp add: bisect_two list_getitem_def)
  have hi: "bisect (f_lengths c) i = 1
      \<and> get_example env' cache c i = get_example env' cache S2 (i - n1)"
    if "n1 \<le> i \<and> i < n1 + n2" for i cache
    using that c e2 by (simp add: bisect_two list_getitem_def)
  have t: "Dataset_len env' c = Inr (n1 + n2, c)"
    using c by (simp add: Dataset_len_of_cached)
  have tb: "f_lengths c = [n1, n1 + n2] \<and> f_offsets c = [0, n1]"
    using c by simp
  from l1 l2 t tb lo hi show ?thesis by blast
qed

theorem concat_of_two_witness:
  "map_sum id f_lengths
       (ConcatDataset_init example_env [Node example_text_a, Node example_text_b])
     = Inr [2, 5]
   \<and> map_sum id (\<lambda>c. get_example example_env Map.empty c 1)
        (ConcatDataset_init example_env [Node example_text_a, Node example_text_b])
     = Inr (get_example example_env Map.empty example_text_a 1)
   \<and> map_sum id (\<lambda>c. get_example example_env Map.empty c 4)
        (ConcatDataset_init example_env [Node example_text_a, Node example_text_b])
     = Inr (get_example example_env Map.empty example_text_b 2)"
proof -
  have "\<not> isl (ConcatDataset_init example_env [Node example_text_a, Node example_text_b])"
    by code_simp
  then obtain c where
    c: "ConcatDataset_init example_env [Node example_text_a, Node example_text_b] = Inr c"
    by (cases "ConcatDataset_init example_env [Node example_text_a, Node example_text_b]") auto
  have la: "map_sum id fst (len example_env example_text_a) = Inr 2"
    and lb: "map_sum id fst (len example_env example_text_b) = Inr 3"
    by code_simp+
  from concat_of_two [OF c, of example_env] la lb
  have "f_lengths c = [2, 5]"
    and "get_example example_env Map.empty c 1 = get_example example_env Map.empty example_text_a 1"
    and "get_example example_env Map.empty c 4 = get_example example_env Map.empty example_text_b 2"
    by auto
  with c show ?thesis by simp
qed

section \<open>The materialized cache\<close>

text \<open>
  C4. A CacheDataset built from any upstream and a snapshot reads the snapshot only:
  \<open>get_example\<close> is list indexing on the snapshot (the element at position \<open>k\<close> when
  \<open>k\<close> is below its length) and leaves the line cache as it is, and the iteration yields
  the snapshot in order and ends normally. The function list inherited from a MapDataset
  or CacheDataset upstream is stored, and applied by neither access path.
\<close>

theorem cache_reads_snapshot:
  "get_example env cache (CacheDataset_init dataset c) i = (list_getitem c i, cache)
   \<and> get_example env cache (CacheDataset_init dataset c) (int k)
       = (if k < length c then Inr (c ! k) else Inl IndexError, cache)
   \<and> iter env (CacheDataset_init dataset c) = (c, None)
   \<and> f_map_func_list (CacheDataset_init (Node (MapDataset s fns l)) c) = fns
   \<and> f_map_func_list (CacheDataset_init (Node (CacheDataset s fns c' l)) c) = fns"
  by (simp add: CacheDataset_init_def Dataset_init_self_def list_getitem_def)

section \<open>Indices outside the range\<close>




section \<open>Saving and loading a snapshot\<close>

text \<open>
  C6. \<open>save\<close> drains \<open>list(self)\<close>, which asks \<open>len(self)\<close> first. When \<open>save\<close> succeeds and
  the drained sequence survives \<open>pickle\<close> (loading what was dumped gives the sequence
  back), \<open>len\<close> had succeeded and left the node \<open>S'\<close>, the iteration of \<open>S\<close> ended normally
  with a sequence \<open>xs\<close>; the file holds the dump of \<open>xs\<close>; \<open>load\<close> in the environment after
  the save returns the plain Dataset over \<open>xs\<close>, whose iteration yields \<open>xs\<close> whatever the
  files then hold; and \<open>save\<close> returned the CacheDataset built from \<open>S'\<close> and \<open>xs\<close>, whose
  snapshot and iteration are \<open>xs\<close>.
\<close>

theorem save_load_round_trip:
  assumes "save dump env S filename = Inr (env', S', c)"
    and "loads (dump (fst (iter env S))) = Inr (fst (iter env S))"
  shows "\<exists>n xs. len env S = Inr (n, S') \<and> iter env S = (xs, None)
      \<and> files env' = (files env)(filename \<mapsto> dump xs)
      \<and> load loads env' filename = Inr (Dataset (Raw xs) None)
      \<and> iter env'' (Dataset (Raw xs) None) = (xs, None)
      \<and> c = CacheDataset_init (Node S') xs \<and> f_cache c = xs \<and> iter env'' c = (xs, None)"
proof -
  define xs where "xs = fst (iter env S)"
  note a = save_result(1) [OF assms(1), folded xs_def]
    and c = save_result(2) [OF assms(1), folded xs_def]
    and e = save_result(3) [OF assms(1), folded xs_def]
  from all_ds_result(1) [OF a] obtain n where l: "len env S = Inr (n, S')" ..
  have it: "iter env S = (xs, None)"
    using a by (rule all_ds_result(2))
  have f: "files env' = (files env)(filename \<mapsto> dump xs)"
    by (simp add: e)
  from assms(2) have "loads (dump xs) = Inr xs" by (simp add: xs_def)
  with f have ld: "load loads env' filename = Inr (Dataset (Raw xs) None)"
    by (simp add: load_def Dataset_init_def Dataset_init_self_def)
  have "f_cache c = xs \<and> iter env'' c = (xs, None)"
    by (simp add: c CacheDataset_init_def Dataset_init_self_def)
  with l it f ld c show ?thesis by simp
qed

theorem save_load_round_trip_witness:
  "(\<exists>env' S' c. save example_dump example_env example_text_a ''snapshot'' = Inr (env', S', c)
     \<and> load example_loads env' ''snapshot''
         = Inr (Dataset (Raw [Str (ascii ''a''), Str (ascii ''b'')]) None)
     \<and> f_cache c = [Str (ascii ''a''), Str (ascii ''b'')]
     \<and> f_length S' = Some 2)
   \<and> iter example_env example_text_a = ([Str (ascii ''a''), Str (ascii ''b'')], None)
   \<and> map_sum id (\<lambda>r. ())
        (save example_dump example_env (SingleTextDataset ''empty.txt'' ''utf-8'' None) ''snapshot'')
       = Inl ValueError"
proof -
  have "\<not> isl (save example_dump example_env example_text_a ''snapshot'')"
    by code_simp
  then obtain env' S' c where
    s: "save example_dump example_env example_text_a ''snapshot'' = Inr (env', S', c)"
    by (cases "save example_dump example_env example_text_a ''snapshot''") auto
  have it: "iter example_env example_text_a = ([Str (ascii ''a''), Str (ascii ''b'')], None)"
    by code_simp
  have r: "example_loads (example_dump (fst (iter example_env example_text_a)))
           = Inr (fst (iter example_env example_text_a))"
    by code_simp
  have l: "map_sum id fst (len example_env example_text_a) = Inr 2"
    by code_simp
  have e: "map_sum id (\<lambda>r. ())
        (save example_dump example_env (SingleTextDataset ''empty.txt'' ''utf-8'' None) ''snapshot'')
       = Inl ValueError"
    by code_simp
  from save_load_round_trip
    [of example_dump example_env example_text_a "''snapshot''" env' S' c example_loads
       no_files, OF s r] it
  obtain n where n: "len example_env example_text_a = Inr (n, S')"
    and ld: "load example_loads env' ''snapshot''
         = Inr (Dataset (Raw [Str (ascii ''a''), Str (ascii ''b'')]) None)"
    and fc: "f_cache c = [Str (ascii ''a''), Str (ascii ''b'')]"
    by auto
  from n l have "n = 2" by simp
  with n have "Dataset_len example_env example_text_a = Inr (2, S')"
    by (auto simp: len.simps split: sum.splits if_splits)
  then have "f_length S' = Some 2"
    by (rule Dataset_len_cached)
  with s ld fc have "\<exists>env' S' c.
       save example_dump example_env example_text_a ''snapshot'' = Inr (env', S', c)
     \<and> load example_loads env' ''snapshot''
         = Inr (Dataset (Raw [Str (ascii ''a''), Str (ascii ''b'')]) None)
     \<and> f_cache c = [Str (ascii ''a''), Str (ascii ''b'')]
     \<and> f_length S' = Some 2"
    by blast
  with it e show ?thesis
    by (intro conjI)
qed

section \<open>Slicing\<close>

text \<open>
  C7. For a dataset whose \<open>len\<close> is \<open>n\<close> and every slice, also with negative or missing
  bounds and a negative step, \<open>S[start:stop:step]\<close> is the comprehension of \<open>get_example\<close>
  over \<open>range(*slice(start, stop, step).indices(n))\<close>, with the same error when the step is
  zero or an access raises, and leaves the same line cache; and every index of that range
  lies in \<open>[0, n)\<close>.
\<close>

theorem slicing_law_holds:
  assumes "len env S = Inr (n, S')"
  shows "map_prod (map_sum id fst) id (Dataset_getitem env cache S (Slice start stop step))
         = map_prod (map_sum id Items) id (slicing_law env cache S start stop step n)
    \<and> (\<forall>a b c. slice_indices start stop step n = Inr (a, b, c) \<longrightarrow>
          list_all (\<lambda>i. 0 \<le> i \<and> i < n) (py_range a b c))"
proof -
  have "map_prod (map_sum id fst) id (Dataset_getitem env cache S (Slice start stop step))
         = map_prod (map_sum id Items) id (slicing_law env cache S start stop step n)"
    using assms get_examples_len [OF assms, of env cache]
    by (auto simp: slicing_law_def get_examples_comprehension [symmetric]
        split: sum.splits prod.splits)
  moreover have "0 \<le> n" using assms by (rule len_nonneg)
  ultimately show ?thesis
    using slice_range_valid by blast
qed

theorem slicing_law_holds_witness:
  "map_sum id fst (len example_env example_concat) = Inr 5
   \<and> map_prod (map_sum id fst) id
        (Dataset_getitem example_env Map.empty example_concat (Slice (Some (- 1)) None (Some (- 2))))
       = map_prod (map_sum id Items) id
           (slicing_law example_env Map.empty example_concat (Some (- 1)) None (Some (- 2)) 5)
   \<and> fst (slicing_law example_env Map.empty example_concat (Some (- 1)) None (Some (- 2)) 5)
       = Inr [Tuple [ascii ''z'', ascii ''3''], Tuple [ascii ''x'', ascii ''1''],
              Str (ascii ''a'')]
   \<and> slice_indices (Some (- 1)) None (Some (- 2)) 5 = Inr (4, - 1, - 2)
   \<and> list_all (\<lambda>i. 0 \<le> i \<and> i < 5) (py_range 4 (- 1) (- 2))"
proof -
  have l: "map_sum id fst (len example_env example_concat) = Inr 5"
    by code_simp
  then obtain d' where h: "len example_env example_concat = Inr (5, d')"
    by (cases "len example_env example_concat") auto
  have v: "fst (slicing_law example_env Map.empty example_concat (Some (- 1)) None (Some (- 2)) 5)
       = Inr [Tuple [ascii ''z'', ascii ''3''], Tuple [ascii ''x'', ascii ''1''],
              Str (ascii ''a'')]"
    by code_simp
  have i: "slice_indices (Some (- 1)) None (Some (- 2)) 5 = Inr (4, - 1, - 2)"
    by code_simp
  from slicing_law_holds [OF h, of Map.empty "Some (- 1)" None "Some (- 2)"] l v i show ?thesis
    by simp
qed

section \<open>Multi-file text datasets\<close>

text \<open>
  C8. Over files that can all be opened with the dataset's encoding, the iteration of a
  TextDataset yields as many tuples as the file that delivers the fewest lines in text
  mode has lines; tuple \<open>k\<close> holds line \<open>k\<close> of every file, in the order of the paths,
  stripped of its terminator (no component contains a line feed or a carriage return);
  the iteration ends as the file it stops at ends, normally when every file is decoded to
  its end, the lines of a file being then those of its decoded text; and \<open>get_length\<close> is
  the line count of the first file alone, the number of its lines as the line feed bytes
  end them (ValueError on an empty first file).
\<close>

theorem text_iterates_in_lockstep:
  assumes "open_all env ps enc = Inr fps" and "ps \<noteq> []"
  shows "\<exists>rows r. iter env (TextDataset ps enc l) = (map Tuple rows, r)
     \<and> list_all2 (\<lambda>p f. open_text env p enc = Inr f
                     \<and> (snd f = None \<longrightarrow> fst f = decoded env p enc)) ps fps
     \<and> length rows = Min (set (map (\<lambda>f. length (fst f)) fps))
     \<and> (\<forall>k < length rows. rows ! k = map (\<lambda>f. rstrip linesep (fst f ! k)) fps)
     \<and> (\<forall>row \<in> set rows. \<forall>x \<in> set row. LF \<notin> set x \<and> CR \<notin> set x)
     \<and> (\<exists>f \<in> set fps. length (fst f) = length rows \<and> snd f = r)
     \<and> ((\<forall>f \<in> set fps. snd f = None) \<longrightarrow> r = None)
     \<and> get_length env (TextDataset ps enc l)
         = (case count_lines env (hd ps) enc of
              Inl e \<Rightarrow> Inl e
            | Inr n \<Rightarrow> Inr (n, TextDataset ps enc l))
     \<and> (\<exists>b. files env (hd ps) = Some b
          \<and> count_lines env (hd ps) enc
              = (if b = [] then Inl ValueError
                 else Inr (int (length (file_lines newline b)))))"
proof -
  define rows where "rows = map (map (rstrip linesep)) (fst (zip_star fps))"
  define r where "r = snd (zip_star fps)"
  from open_all_result [OF assms(1)]
  have op: "list_all2 (\<lambda>p f. open_text env p enc = Inr f) ps fps" .
  then have len: "length fps = length ps"
    by (simp add: list_all2_lengthD)
  with assms(2) have ne: "fps \<noteq> []" by auto
  have it: "iter env (TextDataset ps enc l) = (map Tuple rows, r)"
    using assms(1) by (simp add: rows_def r_def split_beta comp_def)
  have tie: "list_all2 (\<lambda>p f. open_text env p enc = Inr f
                     \<and> (snd f = None \<longrightarrow> fst f = decoded env p enc)) ps fps"
  proof (rule list_all2_mono [OF op])
    fix p f assume o: "open_text env p enc = Inr f"
    from open_text_file [OF o] have "snd f = None \<longrightarrow> fst f = decoded env p enc"
      by (auto simp: decoded_def)
    with o show "open_text env p enc = Inr f
        \<and> (snd f = None \<longrightarrow> fst f = decoded env p enc)" by simp
  qed
  have lr: "length rows = Min (set (map (\<lambda>f. length (fst f)) fps))"
    using length_zip_star [OF ne] by (simp add: rows_def)
  have nth: "rows ! k = map (\<lambda>f. rstrip linesep (fst f ! k)) fps" if "k < length rows" for k
    using that zip_star_nth [of k fps] by (simp add: rows_def comp_def)
  have strip: "LF \<notin> set x \<and> CR \<notin> set x" if "row \<in> set rows" "x \<in> set row" for row x
  proof -
    from that(1) obtain k where k: "k < length rows" and row: "row = rows ! k"
      by (metis in_set_conv_nth)
    with that(2) nth obtain f where f: "f \<in> set fps" and x: "x = rstrip linesep (fst f ! k)"
      by auto
    from f obtain j where j: "j < length fps" and fj: "f = fps ! j"
      by (metis in_set_conv_nth)
    from op j fj have o: "open_text env (ps ! j) enc = Inr f"
      by (simp add: list_all2_conv_all_nth)
    have "length (fst (zip_star fps)) \<le> length (fst f)"
      using f by (rule zip_star_le)
    with k have "fst f ! k \<in> set (fst f)" by (simp add: rows_def)
    from open_text_lines [OF o this] obtain t where "fst f ! k \<in> set (text_lines t)" ..
    from stripped_line [OF this] x show ?thesis by simp
  qed
  from zip_star_ending [OF ne]
  have en: "\<exists>f \<in> set fps. length (fst f) = length rows \<and> snd f = r"
    by (simp add: rows_def r_def)
  have ex: "r = None" if "\<forall>f \<in> set fps. snd f = None"
    unfolding r_def using that by (rule zip_star_exhausted)
  have gl: "get_length env (TextDataset ps enc l)
         = (case count_lines env (hd ps) enc of
              Inl e \<Rightarrow> Inl e
            | Inr n \<Rightarrow> Inr (n, TextDataset ps enc l))"
    using assms(2) by (cases ps) (auto simp: list_getitem_def split: sum.splits)
  have cl: "\<exists>b. files env (hd ps) = Some b
          \<and> count_lines env (hd ps) enc
              = (if b = [] then Inl ValueError
                 else Inr (int (length (file_lines newline b))))"
  proof -
    from op assms(2) ne have "open_text env (hd ps) enc = Inr (hd fps)"
      by (cases ps; cases fps) simp_all
    from open_text_file [OF this] obtain b where "files env (hd ps) = Some b"
      and "codec_known env enc"
      by blast
    then show ?thesis
      by (simp add: count_lines_def count_loop_file_lines)
  qed
  have "iter env (TextDataset ps enc l) = (map Tuple rows, r)
     \<and> list_all2 (\<lambda>p f. open_text env p enc = Inr f
                     \<and> (snd f = None \<longrightarrow> fst f = decoded env p enc)) ps fps
     \<and> length rows = Min (set (map (\<lambda>f. length (fst f)) fps))
     \<and> (\<forall>k < length rows. rows ! k = map (\<lambda>f. rstrip linesep (fst f ! k)) fps)
     \<and> (\<forall>row \<in> set rows. \<forall>x \<in> set row. LF \<notin> set x \<and> CR \<notin> set x)
     \<and> (\<exists>f \<in> set fps. length (fst f) = length rows \<and> snd f = r)
     \<and> ((\<forall>f \<in> set fps. snd f = None) \<longrightarrow> r = None)
     \<and> get_length env (TextDataset ps enc l)
         = (case count_lines env (hd ps) enc of
              Inl e \<Rightarrow> Inl e
            | Inr n \<Rightarrow> Inr (n, TextDataset ps enc l))
     \<and> (\<exists>b. files env (hd ps) = Some b
          \<and> count_lines env (hd ps) enc
              = (if b = [] then Inl ValueError
                 else Inr (int (length (file_lines newline b)))))"
  proof (intro conjI allI impI ballI)
    show "iter env (TextDataset ps enc l) = (map Tuple rows, r)" by (rule it)
    show "list_all2 (\<lambda>p f. open_text env p enc = Inr f
                     \<and> (snd f = None \<longrightarrow> fst f = decoded env p enc)) ps fps" by (rule tie)
    show "length rows = Min (set (map (\<lambda>f. length (fst f)) fps))" by (rule lr)
    show "rows ! k = map (\<lambda>f. rstrip linesep (fst f ! k)) fps" if "k < length rows" for k
      using that by (rule nth)
    show "LF \<notin> set x" if "row \<in> set rows" "x \<in> set row" for row x
      using strip [OF that] by simp
    show "CR \<notin> set x" if "row \<in> set rows" "x \<in> set row" for row x
      using strip [OF that] by simp
    show "\<exists>f \<in> set fps. length (fst f) = length rows \<and> snd f = r" by (rule en)
    show "r = None" if "\<forall>f \<in> set fps. snd f = None"
      using that by (rule ex)
    show "get_length env (TextDataset ps enc l)
         = (case count_lines env (hd ps) enc of
              Inl e \<Rightarrow> Inl e
            | Inr n \<Rightarrow> Inr (n, TextDataset ps enc l))" by (rule gl)
    show "\<exists>b. files env (hd ps) = Some b
          \<and> count_lines env (hd ps) enc
              = (if b = [] then Inl ValueError
                 else Inr (int (length (file_lines newline b))))" by (rule cl)
  qed
  then show ?thesis by blast
qed

theorem text_iterates_in_lockstep_witness:
  "open_all example_env [''cr.txt'', ''c.txt''] ''utf-8''
     = Inr [([ascii ''a'' @ [LF], ascii ''b'' @ [LF], ascii ''c'' @ [LF]], None),
            ([ascii ''1'' @ [LF], ascii ''2'' @ [LF], ascii ''3'' @ [LF]], None)]
   \<and> iter example_env (TextDataset [''cr.txt'', ''c.txt''] ''utf-8'' None :: nat dataset)
       = ([Tuple [ascii ''a'', ascii ''1''], Tuple [ascii ''b'', ascii ''2''],
           Tuple [ascii ''c'', ascii ''3'']], None)
   \<and> map_sum id fst
        (get_length example_env (TextDataset [''cr.txt'', ''c.txt''] ''utf-8'' None :: nat dataset))
       = Inr 2
   \<and> iter example_env example_misaligned = ([Tuple [ascii ''x'', ascii ''p'']], None)
   \<and> map_sum id fst (get_length example_env example_misaligned) = Inr 3"
proof -
  have o: "open_all example_env [''cr.txt'', ''c.txt''] ''utf-8''
     = Inr [([ascii ''a'' @ [LF], ascii ''b'' @ [LF], ascii ''c'' @ [LF]], None),
            ([ascii ''1'' @ [LF], ascii ''2'' @ [LF], ascii ''3'' @ [LF]], None)]"
    by code_simp
  have ne: "[''cr.txt'', ''c.txt''] \<noteq> []"
    by simp
  have c: "count_lines example_env ''cr.txt'' ''utf-8'' = Inr 2"
    by code_simp
  have i: "iter example_env (TextDataset [''cr.txt'', ''c.txt''] ''utf-8'' None :: nat dataset)
       = ([Tuple [ascii ''a'', ascii ''1''], Tuple [ascii ''b'', ascii ''2''],
           Tuple [ascii ''c'', ascii ''3'']], None)"
    by code_simp
  have m: "iter example_env example_misaligned = ([Tuple [ascii ''x'', ascii ''p'']], None)"
    by code_simp
  have n: "map_sum id fst (get_length example_env example_misaligned) = Inr 3"
    by code_simp
  from text_iterates_in_lockstep [OF o ne, of None]
  have g: "get_length example_env (TextDataset [''cr.txt'', ''c.txt''] ''utf-8'' None :: nat dataset)
         = (case count_lines example_env (hd [''cr.txt'', ''c.txt'']) ''utf-8'' of
              Inl e \<Rightarrow> Inl e
            | Inr n \<Rightarrow> Inr (n, TextDataset [''cr.txt'', ''c.txt''] ''utf-8'' None))"
    by (elim exE conjE)
  have "map_sum id fst
        (get_length example_env (TextDataset [''cr.txt'', ''c.txt''] ''utf-8'' None :: nat dataset))
       = Inr (2::int)"
    unfolding g by (simp add: c)
  with o i m n show ?thesis by (intro conjI)
qed

section \<open>The length cache\<close>

text \<open>
  C9. After a call of \<open>__len__\<close> that returns \<open>n\<close>, the cache holds \<open>n\<close>; every later
  call returns \<open>n\<close> and leaves the node as it is, whatever the files then hold (the
  source is not read again); a call on an empty cache returns what \<open>get_length\<close> computes
  from the underlying source, a call on a filled cache returns the cached value; and
  neither \<open>__getitem__\<close> nor \<open>len\<close> nor \<open>save\<close> changes a node whose cache is filled.
\<close>

theorem length_cached_once:
  assumes "Dataset_len env d = Inr (n, d')"
  shows "f_length d' = Some n
    \<and> Dataset_len env' d' = Inr (n, d')
    \<and> (case f_length d of
          None \<Rightarrow> map_sum id fst (get_length env d) = Inr n
        | Some m \<Rightarrow> m = n \<and> d' = d)
    \<and> (\<forall>cache idx r d'' cache'.
          Dataset_getitem env' cache d' idx = (Inr (r, d''), cache') \<longrightarrow> d'' = d')
    \<and> (\<forall>m d''. len env' d' = Inr (m, d'') \<longrightarrow> m = n \<and> d'' = d')
    \<and> (\<forall>dump filename env'' d'' c.
          save dump env' d' filename = Inr (env'', d'', c) \<longrightarrow> d'' = d')"
proof -
  have c: "f_length d' = Some n"
    using assms by (rule Dataset_len_cached)
  then have l: "Dataset_len env' d' = Inr (n, d')"
    by (rule Dataset_len_of_cached)
  have g: "case f_length d of
          None \<Rightarrow> map_sum id fst (get_length env d) = Inr n
        | Some m \<Rightarrow> m = n \<and> d' = d"
    using assms by (auto simp: Dataset_len.simps split: option.splits sum.splits)
  have i: "d'' = d'" if "Dataset_getitem env' cache d' idx = (Inr (r, d''), cache')"
    for cache idx r d'' cache'
    using that l
    by (cases idx) (auto simp: len.simps split: sum.splits if_splits prod.splits)
  have b: "m = n \<and> d'' = d'" if "len env' d' = Inr (m, d'')" for m d''
    using that l by (auto simp: len.simps split: sum.splits if_splits)
  have s: "d'' = d'" if "save dump env' d' filename = Inr (env'', d'', c)"
    for dump filename env'' d'' c
  proof -
    from all_ds_result(1) [OF save_result(1) [OF that]]
    obtain m where "len env' d' = Inr (m, d'')" ..
    with b show ?thesis by blast
  qed
  from c l g i b s show ?thesis by blast
qed

theorem length_cached_once_witness:
  "Dataset_len example_env example_text_a = Inr (2, set_length (Some 2) example_text_a)
   \<and> f_length (set_length (Some 2) example_text_a) = Some 2
   \<and> Dataset_len no_files (set_length (Some 2) example_text_a)
       = Inr (2, set_length (Some 2) example_text_a)
   \<and> map_sum id fst (len no_files example_text_a) = Inl FileNotFoundError"
proof -
  have "map_sum id fst (Dataset_len example_env example_text_a) = Inr 2"
    by code_simp
  then obtain d' where d: "Dataset_len example_env example_text_a = Inr (2, d')"
    by (cases "Dataset_len example_env example_text_a") auto
  then have "d' = set_length (Some 2) example_text_a"
    by (auto simp: example_text_a_def Dataset_len.simps split: sum.splits)
  with d have h: "Dataset_len example_env example_text_a
      = Inr (2, set_length (Some 2) example_text_a)"
    by simp
  have e: "map_sum id fst (len no_files example_text_a) = Inl FileNotFoundError"
    by code_simp
  from length_cached_once [OF h, of no_files] h e show ?thesis by simp
qed

section \<open>Wrapping a dataset in a plain Dataset\<close>

text \<open>
  C10, as the code has it. ConcatDataset and the text datasets define \<open>_dataset\<close> as a
  property that returns the object itself, so a plain Dataset that wraps one of them stores
  the wrapped node and delegates to its overridden accessors: over the ConcatDataset of one
  MapDataset that doubles the elements of \<open>[3]\<close>, \<open>Dataset(c)\<close> returns 6 at index 0, through
  the binary search of \<open>c\<close> and the functions of its child, and not the raw element 3; over
  the text dataset of \<open>a.txt\<close> it returns the stripped line that \<open>linecache\<close> gives.
\<close>

theorem wrapping_a_concat_counterexample:
  "ConcatDataset_init no_files [Node (MapDataset_init (Raw [Obj 3]) double)]
     = Inr example_concat_map
   \<and> f_dataset (Dataset_init (Node example_concat_map)) = Node example_concat_map
   \<and> fst (get_example no_files Map.empty (Dataset_init (Node example_concat_map)) 0)
       = Inr (Obj 6)
   \<and> fst (get_example no_files Map.empty example_concat_map 0) = Inr (Obj 6)
   \<and> iter no_files (Dataset_init (Node example_concat_map)) = ([Obj 6], None)
   \<and> f_dataset (Dataset_init (Node example_text_a)) = Node example_text_a
   \<and> fst (get_example example_env Map.empty (Dataset_init (Node example_text_a)) 0)
       = Inr (Str (ascii ''a''))"
proof -
  have a: "ConcatDataset_init no_files [Node (MapDataset_init (Raw [Obj 3]) double)]
     = Inr example_concat_map"
    by (simp add: ConcatDataset_init_def MapDataset_init_def Dataset_init_self_def
        example_concat_map_def len.simps Dataset_len.simps list_getitem_def)
  have b: "f_dataset (Dataset_init (Node example_concat_map)) = Node example_concat_map"
    and c: "f_dataset (Dataset_init (Node example_text_a)) = Node example_text_a"
    by (simp_all add: Dataset_init_def Dataset_init_self_def example_concat_map_def
        example_text_a_def)
  have d: "fst (get_example no_files Map.empty (Dataset_init (Node example_concat_map)) 0)
       = Inr (Obj 6)"
    and e: "fst (get_example no_files Map.empty example_concat_map 0) = Inr (Obj 6)"
    and f: "iter no_files (Dataset_init (Node example_concat_map)) = ([Obj 6], None)"
    and g: "fst (get_example example_env Map.empty (Dataset_init (Node example_text_a)) 0)
       = Inr (Str (ascii ''a''))"
    by code_simp+
  from a b c d e f g show ?thesis by (intro conjI)
qed

text \<open>
  C10, amended. \<open>Dataset(d)\<close> stores what reading \<open>d._dataset\<close> gives and its accessors read
  that. For a plain Dataset, a MapDataset or a CacheDataset \<open>d\<close> it is the source stored in
  \<open>d\<close>, so the accessors that \<open>d\<close>'s class overrides are bypassed; for a ConcatDataset or a
  text dataset it is \<open>d\<close> itself, and \<open>Dataset(d)\<close> returns and yields what \<open>d\<close> does.
  Consequently, for a MapDataset \<open>m\<close>: where its source yields \<open>x\<close> at \<open>i\<close> and \<open>m\<close>'s
  functions change \<open>x\<close>, \<open>Dataset(m)\<close> returns the untransformed \<open>x\<close> at \<open>i\<close>, \<open>m\<close> returns the
  transformed element, and the two differ.
\<close>

theorem wrapping_a_dataset:
  "f_dataset (Dataset_init (Node d)) = attr_dataset d
   \<and> get_example env cache (Dataset_init (Node d)) i
       = source_getitem env cache (attr_dataset d) i
   \<and> iter env (Dataset_init (Node d)) = source_iter env (attr_dataset d)
   \<and> (is_Dataset d \<or> is_MapDataset d \<or> is_CacheDataset d \<longrightarrow>
        attr_dataset d = f_dataset d)
   \<and> (is_ConcatDataset d \<or> is_SingleTextDataset d \<or> is_TextDataset d \<longrightarrow>
        attr_dataset d = Node d
        \<and> get_example env cache (Dataset_init (Node d)) i = get_example env cache d i
        \<and> iter env (Dataset_init (Node d)) = iter env d)
   \<and> (d = MapDataset s fns l \<and> source_getitem env cache s i = (Inr x, cache')
        \<and> apply_map_funcs fns x \<noteq> x \<longrightarrow>
        get_example env cache (Dataset_init (Node d)) i = (Inr x, cache')
        \<and> get_example env cache d i = (Inr (apply_map_funcs fns x), cache')
        \<and> get_example env cache (Dataset_init (Node d)) i \<noteq> get_example env cache d i)"
  by (cases d) (auto simp: Dataset_init_def Dataset_init_self_def)

theorem wrapping_a_dataset_witness:
  "source_getitem no_files Map.empty (Raw [Obj (3::nat)]) 0 = (Inr (Obj 3), Map.empty)
   \<and> apply_map_funcs [double, increment] (Obj 3) \<noteq> Obj 3
   \<and> get_example no_files Map.empty
        (Dataset_init (Node (MapDataset (Raw [Obj 3]) [double, increment] None))) 0
       = (Inr (Obj 3), Map.empty)
   \<and> get_example no_files Map.empty (MapDataset (Raw [Obj 3]) [double, increment] None) 0
       = (Inr (Obj 7), Map.empty)
   \<and> is_SingleTextDataset example_text_a
   \<and> get_example example_env Map.empty (Dataset_init (Node example_text_a)) 0
       = get_example example_env Map.empty example_text_a 0
   \<and> is_MapDataset (MapDataset (Raw [Obj (3::nat)]) [double, increment] None)
   \<and> attr_dataset (MapDataset (Raw [Obj (3::nat)]) [double, increment] None) = Raw [Obj 3]"
proof -
  have a: "source_getitem no_files Map.empty (Raw [Obj (3::nat)]) 0 = (Inr (Obj 3), Map.empty)"
    by (simp add: list_getitem_def)
  have b: "apply_map_funcs [double, increment] (Obj 3) \<noteq> Obj 3"
    by (simp add: double_def increment_def)
  have t: "is_SingleTextDataset example_text_a"
    by (simp add: example_text_a_def)
  have m: "is_MapDataset (MapDataset (Raw [Obj (3::nat)]) [double, increment] None)"
    by simp
  note wm = wrapping_a_dataset
    [where d = "MapDataset (Raw [Obj (3::nat)]) [double, increment] None"
       and s = "Raw [Obj 3]" and fns = "[double, increment]" and l = None and i = 0
       and env = no_files and cache = Map.empty and x = "Obj 3" and cache' = Map.empty]
  note wt = wrapping_a_dataset
    [where d = example_text_a and env = example_env and cache = Map.empty and i = 0]
  from wm a b
  have w: "get_example no_files Map.empty
        (Dataset_init (Node (MapDataset (Raw [Obj 3]) [double, increment] None))) 0
       = (Inr (Obj 3), Map.empty)"
    and v: "get_example no_files Map.empty (MapDataset (Raw [Obj 3]) [double, increment] None) 0
       = (Inr (apply_map_funcs [double, increment] (Obj 3)), Map.empty)"
    by blast+
  from v have v': "get_example no_files Map.empty
        (MapDataset (Raw [Obj 3]) [double, increment] None) 0 = (Inr (Obj 7), Map.empty)"
    by (simp add: double_def increment_def)
  from wm m
  have at: "attr_dataset (MapDataset (Raw [Obj (3::nat)]) [double, increment] None) = Raw [Obj 3]"
    by simp
  from wt t
  have u: "get_example example_env Map.empty (Dataset_init (Node example_text_a)) 0
       = get_example example_env Map.empty example_text_a 0"
    by blast
  from a b w v' t u m at show ?thesis by (intro conjI)
qed

end
